theory Spec2Isabelle
  imports Main "HOL-Library.Word" "HOL-Library.List_Lexorder"
begin

section \<open>Python values as the hashing code sees them\<close>

text \<open>
  A Python \<open>str\<close> is a sequence of Unicode code points; comparison of two strings is
  lexicographic on code points (the order of \<open>HOL-Library.List_Lexorder\<close>).
  Text that is known to be ASCII (the output of \<open>json.dumps\<close>, a hex digest) and byte
  strings are Isabelle strings, one \<open>char\<close> per byte.
\<close>

type_synonym pystr = "nat list"

definition lit :: "string \<Rightarrow> pystr" where
  "lit s = map of_char s"

text \<open>
  A float is either one of the three non-finite values or a finite number, which is
  represented by the text \<open>float.__repr__\<close> prints for it (the shortest decimal text
  that reads back as the same number, so two finite floats are equal exactly when their
  texts are).
\<close>

datatype pyfloat = Finite string | NaN | PosInf | NegInf

datatype pyval =
    PNone
  | PBool bool
  | PInt int
  | PFloat pyfloat
  | PStr pystr
  | PList "pyval list"
  | PDict "(pystr \<times> pyval) list"

text \<open>A \<open>dict\<close> is its list of items in insertion order; its keys are distinct.\<close>

section \<open>\<open>json.dumps(v, sort_keys=True, separators=(',', ':'))\<close>\<close>

definition hexdigit :: "nat \<Rightarrow> char" where
  "hexdigit d = ''0123456789abcdef'' ! (d mod 16)"

text \<open>\<open>'{0:04x}'.format(n)\<close> for \<open>n < 0x10000\<close>.\<close>

definition hex4 :: "nat \<Rightarrow> string" where
  "hex4 n = [hexdigit (n div 4096), hexdigit (n div 256), hexdigit (n div 16), hexdigit n]"

text \<open>
  One character of \<open>py_encode_basestring_ascii\<close> (\<open>ensure_ascii\<close> is left at its
  default): the printable ASCII characters other than the quote and the backslash stand
  for themselves, seven characters have a short escape, and every other code point is
  written \<open>\uXXXX\<close>, as a surrogate pair above the basic plane.
\<close>

definition esc_char :: "nat \<Rightarrow> string" where
  "esc_char c =
    (if c = 0x5C then [CHR 0x5C, CHR 0x5C]
     else if c = 0x22 then [CHR 0x5C, CHR 0x22]
     else if c = 0x08 then [CHR 0x5C, CHR ''b'']
     else if c = 0x0C then [CHR 0x5C, CHR ''f'']
     else if c = 0x0A then [CHR 0x5C, CHR ''n'']
     else if c = 0x0D then [CHR 0x5C, CHR ''r'']
     else if c = 0x09 then [CHR 0x5C, CHR ''t'']
     else if 0x20 \<le> c \<and> c \<le> 0x7E then [char_of c]
     else if c < 0x10000 then [CHR 0x5C, CHR ''u''] @ hex4 c
     else (let n = c - 0x10000;
               s1 = 0xD800 + (n div 1024) mod 1024;
               s2 = 0xDC00 + n mod 1024
           in [CHR 0x5C, CHR ''u''] @ hex4 s1 @ [CHR 0x5C, CHR ''u''] @ hex4 s2))"

definition encode_basestring_ascii :: "pystr \<Rightarrow> string" where
  "encode_basestring_ascii s = [CHR 0x22] @ concat (map esc_char s) @ [CHR 0x22]"

function dec :: "nat \<Rightarrow> string" where
  "dec n = (if n < 10 then [hexdigit n] else dec (n div 10) @ [hexdigit (n mod 10)])"
  by pat_completeness auto
termination
  by (relation "measure id") auto

declare dec.simps [simp del]

text \<open>\<open>int.__repr__\<close>\<close>

definition int_repr :: "int \<Rightarrow> string" where
  "int_repr i = (if i < 0 then CHR ''-'' # dec (nat (- i)) else dec (nat i))"

text \<open>
  \<open>floatstr\<close> of the encoder; \<open>allow_nan\<close> is left at its default \<open>True\<close>, so the
  non-finite values are written out and nothing is raised.
\<close>

fun floatstr :: "pyfloat \<Rightarrow> string" where
  "floatstr NaN = ''NaN''"
| "floatstr PosInf = ''Infinity''"
| "floatstr NegInf = ''-Infinity''"
| "floatstr (Finite r) = r"

fun join :: "string \<Rightarrow> string list \<Rightarrow> string" where
  "join sep [] = []"
| "join sep [x] = x"
| "join sep (x # y # ys) = x @ sep @ join sep (y # ys)"

text \<open>
  The items of a dict are written in the order of \<open>sorted(dct.items())\<close>. The keys of a
  dict are distinct, so that order is the order of the keys; the model writes each value
  first and sorts the (key, text) pairs by key.
\<close>

fun dumps :: "pyval \<Rightarrow> string" where
  "dumps PNone = ''null''"
| "dumps (PBool b) = (if b then ''true'' else ''false'')"
| "dumps (PInt i) = int_repr i"
| "dumps (PFloat f) = floatstr f"
| "dumps (PStr s) = encode_basestring_ascii s"
| "dumps (PList xs) = ''['' @ join '','' (map dumps xs) @ '']''"
| "dumps (PDict kvs) =
     ''{'' @ join '',''
        (map (\<lambda>p. encode_basestring_ascii (fst p) @ '':'' @ snd p)
             (sort_key fst (map (\<lambda>p. (fst p, dumps (snd p))) kvs))) @ ''}''"

section \<open>\<open>compute_hash\<close> (both engines)\<close>

text \<open>
  \<open>hashlib.sha256\<close> is the interpreter's; the model takes it as the parameter \<open>H\<close>, a
  function from byte strings to 256-bit digests. \<open>hexdigest\<close> prints the digest as 64
  lowercase hexadecimal digits, most significant first.
\<close>

definition hexdigest :: "256 word \<Rightarrow> string" where
  "hexdigest w = map (\<lambda>i. hexdigit (unat (drop_bit (4 * i) w))) (rev [0..<64])"

text \<open>
  The text \<open>json.dumps\<close> returns is ASCII, so \<open>json_str.encode('utf-8')\<close> is the same
  characters as bytes.
\<close>

text \<open>
  The exceptions of the model. A call returns \<open>Inr\<close> of its value or \<open>Inl\<close> of the
  exception it raises.
\<close>

datatype exn =
    ValueError
  | UnicodeEncodeError
  | OverflowError
  | RecursionError
  | CancelledError
  | TransactionFailed
  | Raised string

text \<open>
  What \<open>json.dumps\<close> raises. \<open>int.__repr__\<close> raises \<open>ValueError\<close> for an int of more
  than 4300 decimal digits (the interpreter's default limit on the conversion of an int
  to a string). The encoder enters every list and every dict, also an empty one, through
  the interpreter's recursion check, and \<open>RecursionError\<close> is raised when the containers
  are nested deeper than the interpreter allows at this call; that number depends on the
  interpreter and on the call stack and is the parameter \<open>r\<close> of the model. The items of
  a dict are written in the order of their keys, the elements of a list in their order,
  and the first exception ends the call.
\<close>

definition max_str_digits :: nat where
  "max_str_digits = 4300"

definition too_many_digits :: "int \<Rightarrow> bool" where
  "too_many_digits i = (10 ^ max_str_digits \<le> \<bar>i\<bar>)"

text \<open>The least int with 4301 digits, \<open>10 ** 4300\<close>.\<close>

definition big_int :: int where
  "big_int = 10 ^ 4300"

fun first_error :: "exn option list \<Rightarrow> exn option" where
  "first_error [] = None"
| "first_error (None # es) = first_error es"
| "first_error (Some e # es) = Some e"

fun encode_error :: "nat \<Rightarrow> pyval \<Rightarrow> exn option" where
  "encode_error r (PInt i) = (if too_many_digits i then Some ValueError else None)"
| "encode_error r (PList xs) =
     (if r = 0 then Some RecursionError
      else first_error (map (encode_error (r - 1)) xs))"
| "encode_error r (PDict kvs) =
     (if r = 0 then Some RecursionError
      else first_error (map snd
             (sort_key fst (map (\<lambda>p. (fst p, encode_error (r - 1) (snd p))) kvs))))"
| "encode_error r v = None"

text \<open>
  \<open>compute_hash\<close> contains no \<open>raise\<close> of its own: it raises what \<open>json.dumps\<close> raises
  and returns otherwise.
\<close>

definition compute_hash :: "nat \<Rightarrow> (string \<Rightarrow> 256 word) \<Rightarrow> pyval \<Rightarrow> exn + string" where
  "compute_hash r H output_dict =
     (case encode_error r output_dict of
        Some e \<Rightarrow> Inl e
      | None \<Rightarrow>
          (let json_str = dumps output_dict;
               result_hash = hexdigest (H json_str)
           in Inr (''0x'' @ result_hash)))"

text \<open>The nesting depth of a value, and whether it holds an int of more than 4300 digits.\<close>

fun depth :: "pyval \<Rightarrow> nat" where
  "depth (PList xs) = Suc (foldr max (map depth xs) 0)"
| "depth (PDict kvs) = Suc (foldr max (map (\<lambda>p. depth (snd p)) kvs) 0)"
| "depth v = 0"

fun has_big_int :: "pyval \<Rightarrow> bool" where
  "has_big_int (PInt i) = too_many_digits i"
| "has_big_int (PList xs) = list_ex has_big_int xs"
| "has_big_int (PDict kvs) = list_ex (\<lambda>p. has_big_int (snd p)) kvs"
| "has_big_int v = False"

text \<open>
  The canonical form of a value: the items of every dict, at every depth, in the order of
  their keys. Two values are identical after canonicalization when their canonical forms
  are equal.
\<close>

fun canon :: "pyval \<Rightarrow> pyval" where
  "canon (PList xs) = PList (map canon xs)"
| "canon (PDict kvs) = PDict (sort_key fst (map (\<lambda>p. (fst p, canon (snd p))) kvs))"
| "canon v = v"

section \<open>\<open>verify_cid\<close> (shared/ipfs\_utils.py)\<close>

text \<open>\<open>s.endswith(t)\<close>\<close>

definition endswith :: "pystr \<Rightarrow> pystr \<Rightarrow> bool" where
  "endswith s t = (length t \<le> length s \<and> drop (length s - length t) s = t)"

definition verify_cid :: "(string \<Rightarrow> 256 word) \<Rightarrow> string \<Rightarrow> pystr \<Rightarrow> bool" where
  "verify_cid H data expected_cid =
     (let actual_hash = hexdigest (H data)
      in endswith expected_cid (lit (take 32 actual_hash)))"

section \<open>\<open>str.encode('utf-8')\<close>\<close>

text \<open>
  A surrogate code point (\<open>U+D800\<close> to \<open>U+DFFF\<close>) has no UTF-8 encoding: \<open>encode\<close>
  raises \<open>UnicodeEncodeError\<close>.
\<close>

definition utf8_char :: "nat \<Rightarrow> string option" where
  "utf8_char c =
    (if c < 0x80 then Some [char_of c]
     else if c < 0x800 then Some [char_of (0xC0 + c div 64), char_of (0x80 + c mod 64)]
     else if 0xD800 \<le> c \<and> c < 0xE000 then None
     else if c < 0x10000 then
       Some [char_of (0xE0 + c div 4096), char_of (0x80 + (c div 64) mod 64),
             char_of (0x80 + c mod 64)]
     else
       Some [char_of (0xF0 + (c div 262144) mod 8), char_of (0x80 + (c div 4096) mod 64),
             char_of (0x80 + (c div 64) mod 64), char_of (0x80 + c mod 64)])"

fun encode_utf8 :: "pystr \<Rightarrow> exn + string" where
  "encode_utf8 [] = Inr []"
| "encode_utf8 (c # cs) =
     (case utf8_char c of
        None \<Rightarrow> Inl UnicodeEncodeError
      | Some bs \<Rightarrow> (case encode_utf8 cs of Inl e \<Rightarrow> Inl e | Inr r \<Rightarrow> Inr (bs @ r)))"

section \<open>\<open>upload_to_ipfs\<close> (shared/ipfs\_utils.py)\<close>

text \<open>
  What \<open>session.post\<close> and \<open>response.json()\<close> do is the remote store's: the request
  raises an \<open>Exception\<close>, or the task is cancelled while it waits
  (\<open>asyncio.CancelledError\<close>, which \<open>except Exception\<close> does not catch), or the request is
  answered with a status and a body, which is a JSON object (its items) or is not one
  (\<open>response.json()\<close> raises).
\<close>

datatype post_result =
    PostRaised exn
  | PostCancelled
  | PostResponse nat "(pystr \<times> pystr) list option"

text \<open>The \<open>except\<close> branch: the digest of \<open>data.encode()\<close> as a placeholder.\<close>

definition fallback_cid :: "(string \<Rightarrow> 256 word) \<Rightarrow> pystr \<Rightarrow> exn + pystr" where
  "fallback_cid H data =
     (case encode_utf8 data of
        Inl e \<Rightarrow> Inl e
      | Inr bytes \<Rightarrow> (let content_hash = hexdigest (H bytes) in Inr (lit ''0x'' @ lit content_hash)))"

definition upload_to_ipfs ::
  "(string \<Rightarrow> 256 word) \<Rightarrow> (string \<Rightarrow> post_result) \<Rightarrow> pystr \<Rightarrow> exn + pystr" where
  "upload_to_ipfs H post data =
     (case encode_utf8 data of
        Inl e \<Rightarrow> fallback_cid H data
      | Inr file \<Rightarrow>
          (case post file of
             PostRaised e \<Rightarrow> fallback_cid H data
           | PostCancelled \<Rightarrow> Inl CancelledError
           | PostResponse status body \<Rightarrow>
               if status \<noteq> 200 then fallback_cid H data
               else (case body of
                       None \<Rightarrow> fallback_cid H data
                     | Some result \<Rightarrow>
                         (case map_of result (lit ''Hash'') of
                            None \<Rightarrow> fallback_cid H data
                          | Some cid \<Rightarrow> Inr (lit ''ipfs://'' @ cid)))))"

section \<open>\<open>int(estimated_gas * 1.2)\<close>\<close>







section \<open>\<open>TensoraRPC.send_transaction\<close> (shared/rpc\_client.py)\<close>








text \<open>A value with a float that is not finite, at any depth.\<close>

fun has_nonfinite :: "pyval \<Rightarrow> bool" where
  "has_nonfinite (PFloat f) = (case f of Finite r \<Rightarrow> False | _ \<Rightarrow> True)"
| "has_nonfinite (PList xs) = list_ex has_nonfinite xs"
| "has_nonfinite (PDict kvs) = list_ex (\<lambda>p. has_nonfinite (snd p)) kvs"
| "has_nonfinite _ = False"


section \<open>\<open>VLLMEngine\<close> (miner-node/engine/vllm\_runtime.py)\<close>

record sampling_params =
  temperature :: pyfloat
  max_tokens :: int
  seed :: int
  top_p :: pyfloat
  top_k :: int
  use_beam_search :: bool

text \<open>
  \<open>generate\<close> is the construction of \<open>SamplingParams\<close>, \<open>self.llm.generate\<close> and
  \<open>output.outputs[0].text\<close> for each output: the generated texts, or the exception one of
  them raises.
\<close>

record vllm_engine =
  model_name :: pystr
  generate :: "pystr list \<Rightarrow> sampling_params \<Rightarrow> exn + pystr list"

definition inference_results :: "vllm_engine \<Rightarrow> pystr list \<Rightarrow> pystr list \<Rightarrow> int \<Rightarrow> pyfloat \<Rightarrow> pyval" where
  "inference_results eng prompts generated_texts mt temp =
     PDict [(lit ''prompts'', PList (map PStr prompts)),
            (lit ''outputs'', PList (map PStr generated_texts)),
            (lit ''model'', PStr (model_name eng)),
            (lit ''params'', PDict [(lit ''max_tokens'', PInt mt),
                                    (lit ''temperature'', PFloat temp),
                                    (lit ''seed'', PInt 0)])]"

definition run_inference ::
  "nat \<Rightarrow> (string \<Rightarrow> 256 word) \<Rightarrow> vllm_engine \<Rightarrow> pystr list \<Rightarrow> int \<Rightarrow> pyfloat \<Rightarrow> exn + (pystr list \<times> string)" where
  "run_inference r H eng prompts mt temp =
     (let sampling = \<lparr>temperature = temp, max_tokens = mt, seed = 0, top_p = Finite ''1.0'',
                       top_k = - 1, use_beam_search = False\<rparr>
      in case generate eng prompts sampling of
           Inl e \<Rightarrow> Inl e
         | Inr generated_texts \<Rightarrow>
             (case compute_hash r H (inference_results eng prompts generated_texts mt temp) of
                Inl e \<Rightarrow> Inl e
              | Inr result_hash \<Rightarrow> Inr (generated_texts, result_hash)))"

text \<open>
  The slices \<open>prompts[i:i + batch_size]\<close> for \<open>i\<close> in \<open>range(0, len(prompts), batch_size)\<close>,
  for a positive \<open>batch_size\<close>.
\<close>

function batches :: "nat \<Rightarrow> 'a list \<Rightarrow> 'a list list" where
  "batches k xs = (if k = 0 \<or> xs = [] then [] else take k xs # batches k (drop k xs))"
  by pat_completeness auto
termination
  by (relation "measure (\<lambda>(k, xs). length xs)") auto

declare batches.simps [simp del]

text \<open>The loop body, batch after batch; an exception of \<open>run_inference\<close> ends the loop.\<close>

fun run_batches ::
  "nat \<Rightarrow> (string \<Rightarrow> 256 word) \<Rightarrow> vllm_engine \<Rightarrow> int \<Rightarrow> pystr list list \<Rightarrow> pystr list \<Rightarrow> exn + pystr list" where
  "run_batches r H eng mt [] all_outputs = Inr all_outputs"
| "run_batches r H eng mt (batch # rest) all_outputs =
     (case run_inference r H eng batch mt (Finite ''0.0'') of
        Inl e \<Rightarrow> Inl e
      | Inr res \<Rightarrow> run_batches r H eng mt rest (all_outputs @ fst res))"

text \<open>The sampling parameters of a call with the default temperature.\<close>

definition default_sampling :: "int \<Rightarrow> sampling_params" where
  "default_sampling mt = \<lparr>temperature = Finite ''0.0'', max_tokens = mt, seed = 0,
     top_p = Finite ''1.0'', top_k = - 1, use_beam_search = False\<rparr>"

definition batch_results :: "vllm_engine \<Rightarrow> pystr list \<Rightarrow> int \<Rightarrow> pyval" where
  "batch_results eng all_outputs batch_size =
     PDict [(lit ''outputs'', PList (map PStr all_outputs)),
            (lit ''model'', PStr (model_name eng)),
            (lit ''batch_size'', PInt batch_size)]"

text \<open>
  \<open>range\<close> raises \<open>ValueError\<close> for the step 0 and is empty for a negative step.
\<close>

definition run_batch ::
  "nat \<Rightarrow> (string \<Rightarrow> 256 word) \<Rightarrow> vllm_engine \<Rightarrow> pystr list \<Rightarrow> int \<Rightarrow> int \<Rightarrow> exn + (pystr list \<times> string)" where
  "run_batch r H eng prompts batch_size mt =
     (if batch_size = 0 then Inl ValueError
      else case run_batches r H eng mt
                  (if batch_size < 0 then [] else batches (nat batch_size) prompts) [] of
             Inl e \<Rightarrow> Inl e
           | Inr all_outputs \<Rightarrow>
               (case compute_hash r H (batch_results eng all_outputs batch_size) of
                  Inl e \<Rightarrow> Inl e
                | Inr combined_hash \<Rightarrow> Inr (all_outputs, combined_hash)))"

text \<open>An engine whose output for a prompt depends on that prompt and the parameters only.\<close>

definition per_prompt :: "vllm_engine \<Rightarrow> (sampling_params \<Rightarrow> pystr \<Rightarrow> pystr) \<Rightarrow> bool" where
  "per_prompt eng g = (\<forall>ps sp. generate eng ps sp = Inr (map (g sp) ps))"

text \<open>An engine that answers each prompt with the prompt itself.\<close>

definition echo_engine :: vllm_engine where
  "echo_engine = \<lparr>model_name = lit ''m'', generate = (\<lambda>ps sp. Inr ps)\<rparr>"

section \<open>Well-formed values\<close>

text \<open>
  A code point of a string that can be encoded: below \<open>0x110000\<close> and not a surrogate.
  The classes of code points that \<open>py_encode_basestring_ascii\<close> treats alike.
\<close>

definition cp_ok :: "nat \<Rightarrow> bool" where
  "cp_ok c = (c < 0x110000 \<and> \<not> (0xD800 \<le> c \<and> c < 0xE000))"

definition special :: "nat \<Rightarrow> bool" where
  "special c = (c = 0x5C \<or> c = 0x22 \<or> c = 0x08 \<or> c = 0x0C \<or> c = 0x0A \<or> c = 0x0D \<or> c = 0x09)"

definition printable :: "nat \<Rightarrow> bool" where
  "printable c = (0x20 \<le> c \<and> c \<le> 0x7E \<and> c \<noteq> 0x22 \<and> c \<noteq> 0x5C)"

text \<open>
  The text \<open>float.__repr__\<close> prints for a finite float is made of digits, signs, a point
  and an exponent mark, and has a point or an exponent mark (\<open>3.0\<close>, \<open>-0.0\<close>, \<open>1e+16\<close>,
  \<open>1.5e-07\<close>).
\<close>

definition float_text :: "string \<Rightarrow> bool" where
  "float_text r = (r \<noteq> [] \<and> list_all (\<lambda>c. c \<in> set ''0123456789+-.e'') r
     \<and> list_ex (\<lambda>c. c = CHR ''.'' \<or> c = CHR ''e'') r)"

fun wf_float :: "pyfloat \<Rightarrow> bool" where
  "wf_float (Finite r) = float_text r"
| "wf_float f = True"

text \<open>
  A well-formed value: every finite float carries a text \<open>repr\<close> can print, and every
  string, keys included, is made of code points that are not surrogates.
\<close>

fun well_formed :: "pyval \<Rightarrow> bool" where
  "well_formed (PFloat f) = wf_float f"
| "well_formed (PStr s) = list_all cp_ok s"
| "well_formed (PList xs) = list_all well_formed xs"
| "well_formed (PDict kvs) = list_all (\<lambda>p. list_all cp_ok (fst p) \<and> well_formed (snd p)) kvs"
| "well_formed v = True"

text \<open>What can follow the text of a value inside a text: nothing, or a delimiter.\<close>

definition delim :: "char \<Rightarrow> bool" where
  "delim c = (c = CHR '','' \<or> c = CHR '']'' \<or> c = CHR ''}'')"

definition okr :: "string \<Rightarrow> bool" where
  "okr r = (r = [] \<or> delim (hd r))"

fun is_scalar :: "pyval \<Rightarrow> bool" where
  "is_scalar (PStr s) = False"
| "is_scalar (PList xs) = False"
| "is_scalar (PDict kvs) = False"
| "is_scalar v = True"

text \<open>A character that can occur in the text of a scalar.\<close>

definition is_tok :: "char \<Rightarrow> bool" where
  "is_tok c = (\<not> delim c \<and> c \<noteq> CHR 0x22 \<and> c \<noteq> CHR ''['' \<and> c \<noteq> CHR ''{'')"

text \<open>
  The kind of a scalar, and the kind read off a text: the keywords are told apart by a
  letter, a float from an int by its point or exponent mark.
\<close>

fun kind :: "pyval \<Rightarrow> nat" where
  "kind PNone = 1"
| "kind (PBool b) = (if b then 2 else 3)"
| "kind (PFloat NaN) = 4"
| "kind (PFloat PosInf) = 5"
| "kind (PFloat NegInf) = 6"
| "kind (PFloat (Finite r)) = 7"
| "kind (PInt i) = 8"
| "kind v = 0"

definition text_kind :: "string \<Rightarrow> nat" where
  "text_kind t =
     (if CHR ''I'' \<in> set t then (if hd t = CHR ''-'' then 6 else 5)
      else if CHR ''N'' \<in> set t then 4
      else if CHR ''n'' \<in> set t then 1
      else if CHR ''t'' \<in> set t then 2
      else if CHR ''f'' \<in> set t then 3
      else if CHR ''.'' \<in> set t \<or> CHR ''e'' \<in> set t then 7
      else 8)"

section \<open>Properties of the canonical hash\<close>

lemma length_hexdigest: "length (hexdigest w) = 64"
  by (simp add: hexdigest_def)

text \<open>The digest can be read back from its 64 digits.\<close>

lemma hexdigit_inj: "hexdigit a = hexdigit b \<Longrightarrow> a mod 16 = b mod 16"
proof -
  assume h: "hexdigit a = hexdigit b"
  have d: "distinct ''0123456789abcdef''" by simp
  have l: "length ''0123456789abcdef'' = 16" by simp
  have "a mod 16 < length ''0123456789abcdef''" "b mod 16 < length ''0123456789abcdef''"
    by simp_all
  with h d show ?thesis
    unfolding hexdigit_def by (simp only: nth_eq_iff_index_eq)
qed

lemma nibble_bit:
  fixes w :: "256 word"
  shows "bit w n = bit (unat (drop_bit (4 * (n div 4)) w) mod 16) (n mod 4)"
proof -
  have s: "(16::nat) = 2 ^ 4" by simp
  have lt: "n mod 4 < 4" by simp
  have e: "4 * (n div 4) + n mod 4 = n" by simp
  show ?thesis
    unfolding s take_bit_eq_mod [symmetric]
    using lt e by (simp add: bit_take_bit_iff bit_unsigned_iff bit_drop_bit_eq)
qed

lemma hexdigest_inj: "hexdigest w1 = hexdigest w2 \<Longrightarrow> w1 = w2"
proof (rule bit_eqI)
  fix n
  assume h: "hexdigest w1 = hexdigest w2"
  assume "possible_bit TYPE(256 word) n"
  then have n: "n < 256" by (simp add: possible_bit_def)
  then have i: "n div 4 \<in> set (rev [0..<64])" by auto
  from h have "\<forall>i \<in> set (rev [0..<64]).
      hexdigit (unat (drop_bit (4 * i) w1)) = hexdigit (unat (drop_bit (4 * i) w2))"
    unfolding hexdigest_def map_eq_conv .
  with i have "hexdigit (unat (drop_bit (4 * (n div 4)) w1)) = hexdigit (unat (drop_bit (4 * (n div 4)) w2))"
    by blast
  then have "unat (drop_bit (4 * (n div 4)) w1) mod 16 = unat (drop_bit (4 * (n div 4)) w2) mod 16"
    by (rule hexdigit_inj)
  then show "bit w1 n = bit w2 n"
    by (simp only: nibble_bit [of w1 n] nibble_bit [of w2 n])
qed

subsection \<open>When \<open>json.dumps\<close> raises\<close>

lemma first_error_None: "(first_error es = None) = (\<forall>e \<in> set es. e = None)"
  by (induction es rule: first_error.induct) simp_all

lemma first_error_Some: "first_error es = Some e \<Longrightarrow> Some e \<in> set es"
  by (induction es rule: first_error.induct) simp_all

lemma foldr_max_le: "(foldr max (map f xs) 0 \<le> (n::nat)) = (\<forall>x \<in> set xs. f x \<le> n)"
  by (induction xs) auto

lemma encode_error_None_iff:
  "(encode_error r v = None) = (depth v \<le> r \<and> \<not> has_big_int v)"
proof (induction r v rule: encode_error.induct)
  case (2 r xs)
  show ?case
  proof (cases r)
    case 0
    then show ?thesis by simp
  next
    case (Suc n)
    with 2 have ih: "\<And>x. x \<in> set xs \<Longrightarrow>
        (encode_error n x = None) = (depth x \<le> n \<and> \<not> has_big_int x)"
      by simp
    show ?thesis
      using Suc ih by (auto simp: first_error_None foldr_max_le list_ex_iff)
  qed
next
  case (3 r kvs)
  show ?case
  proof (cases r)
    case 0
    then show ?thesis by simp
  next
    case (Suc n)
    with 3 have ih: "\<And>p. p \<in> set kvs \<Longrightarrow>
        (encode_error n (snd p) = None) = (depth (snd p) \<le> n \<and> \<not> has_big_int (snd p))"
      by simp
    show ?thesis
      using Suc ih by (auto simp: first_error_None foldr_max_le list_ex_iff)
  qed
qed simp_all

lemma encode_error_kind:
  "encode_error r v = Some e \<Longrightarrow> e = ValueError \<or> e = RecursionError"
proof (induction r v arbitrary: e rule: encode_error.induct)
  case (2 r xs)
  show ?case
  proof (cases "r = 0")
    case True
    with "2.prems" show ?thesis by simp
  next
    case False
    with "2.prems" have "Some e \<in> set (map (encode_error (r - 1)) xs)"
      by (auto dest: first_error_Some)
    then obtain x where "x \<in> set xs" "encode_error (r - 1) x = Some e"
      by auto
    with False "2.IH" show ?thesis by blast
  qed
next
  case (3 r kvs)
  show ?case
  proof (cases "r = 0")
    case True
    with "3.prems" show ?thesis by simp
  next
    case False
    with "3.prems" have "Some e \<in> set (map snd
        (sort_key fst (map (\<lambda>p. (fst p, encode_error (r - 1) (snd p))) kvs)))"
      by (auto dest: first_error_Some)
    then obtain p where "p \<in> set kvs" "encode_error (r - 1) (snd p) = Some e"
      by auto
    with False "3.IH" show ?thesis by blast
  qed
qed (auto split: if_splits)

subsection \<open>The format of the hash\<close>

lemma too_many_digits_limit: "too_many_digits big_int"
  unfolding too_many_digits_def max_str_digits_def big_int_def by (rule abs_ge_self)

lemma small_int_ok: "\<bar>i\<bar> < 10000 \<Longrightarrow> \<not> too_many_digits i"
proof -
  assume a: "\<bar>i\<bar> < 10000"
  have p: "(10::int) ^ 4 \<le> 10 ^ 4300"
    by (rule power_increasing) simp_all
  have q: "(10::int) ^ 4 = 10000" by simp
  from p have r: "(10000::int) \<le> 10 ^ 4300" unfolding q .
  from a r have "\<bar>i\<bar> < 10 ^ 4300" by (rule less_le_trans)
  then show ?thesis
    unfolding too_many_digits_def max_str_digits_def by (simp only: not_le)
qed

lemma hexdigest_lowercase: "set (hexdigest w) \<subseteq> set ''0123456789abcdef''"
proof -
  have h: "hexdigit d \<in> set ''0123456789abcdef''" for d
    unfolding hexdigit_def by (rule nth_mem) simp
  show ?thesis
    unfolding hexdigest_def set_map by (rule image_subsetI) (rule h)
qed

lemma length_hash: "length (''0x'' @ hexdigest w) = 66"
  by (simp add: length_hexdigest)

lemma compute_hash_returns:
  "depth v \<le> r \<Longrightarrow> \<not> has_big_int v \<Longrightarrow>
     compute_hash r H v = Inr (''0x'' @ hexdigest (H (dumps v)))"
proof -
  assume "depth v \<le> r" "\<not> has_big_int v"
  then have "encode_error r v = None"
    by (simp add: encode_error_None_iff)
  then show ?thesis by (simp add: compute_hash_def)
qed

lemma compute_hash_raises:
  "\<not> (depth v \<le> r \<and> \<not> has_big_int v) \<Longrightarrow>
     compute_hash r H v = Inl ValueError \<or> compute_hash r H v = Inl RecursionError"
proof -
  assume "\<not> (depth v \<le> r \<and> \<not> has_big_int v)"
  then have "encode_error r v \<noteq> None"
    by (simp add: encode_error_None_iff)
  then obtain e where e: "encode_error r v = Some e" by auto
  then have "e = ValueError \<or> e = RecursionError" by (rule encode_error_kind)
  with e show ?thesis by (auto simp: compute_hash_def)
qed

lemma compute_hash_cases:
  "(depth v \<le> r \<and> \<not> has_big_int v
      \<and> compute_hash r H v = Inr (''0x'' @ hexdigest (H (dumps v))))
   \<or> (\<not> (depth v \<le> r \<and> \<not> has_big_int v)
      \<and> (compute_hash r H v = Inl ValueError \<or> compute_hash r H v = Inl RecursionError))"
proof (cases "depth v \<le> r \<and> \<not> has_big_int v")
  case True
  then show ?thesis using compute_hash_returns [of v r H] by simp
next
  case False
  then show ?thesis using compute_hash_raises [of v r H] by blast
qed

text \<open>
  Claim C2, amended. For every output dict that \<open>json.dumps\<close> serializes (no int of more
  than 4300 digits, nesting within what the interpreter allows) \<open>compute_hash\<close> returns
  \<open>0x\<close> followed by the lowercase hexadecimal SHA-256 digest of the canonical JSON text
  of the dict, 66 characters in all; for every other dict it raises \<open>ValueError\<close> or
  \<open>RecursionError\<close> and returns nothing.
\<close>

theorem compute_hash_format:
  "(depth (PDict kvs) \<le> r \<and> \<not> has_big_int (PDict kvs) \<longrightarrow>
      compute_hash r H (PDict kvs) = Inr (''0x'' @ hexdigest (H (dumps (PDict kvs))))
      \<and> length (''0x'' @ hexdigest (H (dumps (PDict kvs)))) = 66
      \<and> set (hexdigest (H (dumps (PDict kvs)))) \<subseteq> set ''0123456789abcdef'')
   \<and> (\<not> (depth (PDict kvs) \<le> r \<and> \<not> has_big_int (PDict kvs)) \<longrightarrow>
      compute_hash r H (PDict kvs) = Inl ValueError
      \<or> compute_hash r H (PDict kvs) = Inl RecursionError)"
proof (intro conjI impI)
  assume a: "depth (PDict kvs) \<le> r \<and> \<not> has_big_int (PDict kvs)"
  then show "compute_hash r H (PDict kvs) = Inr (''0x'' @ hexdigest (H (dumps (PDict kvs))))"
    by (intro compute_hash_returns) simp_all
next
  show "length (''0x'' @ hexdigest (H (dumps (PDict kvs)))) = 66"
    by (rule length_hash)
next
  show "set (hexdigest (H (dumps (PDict kvs)))) \<subseteq> set ''0123456789abcdef''"
    by (rule hexdigest_lowercase)
next
  assume "\<not> (depth (PDict kvs) \<le> r \<and> \<not> has_big_int (PDict kvs))"
  then show "compute_hash r H (PDict kvs) = Inl ValueError
      \<or> compute_hash r H (PDict kvs) = Inl RecursionError"
    by (rule compute_hash_raises)
qed

theorem compute_hash_format_witness:
  "depth (PDict [(lit ''y'', PList [PList [PFloat (Finite ''3.0'')]])]) \<le> 1000
   \<and> \<not> has_big_int (PDict [(lit ''y'', PList [PList [PFloat (Finite ''3.0'')]])])
   \<and> (\<exists>h. compute_hash 1000 (\<lambda>b. of_nat (length b))
              (PDict [(lit ''y'', PList [PList [PFloat (Finite ''3.0'')]])]) = Inr h
          \<and> length h = 66)
   \<and> \<not> (depth (PDict [(lit ''n'', PInt big_int)]) \<le> 1000
        \<and> \<not> has_big_int (PDict [(lit ''n'', PInt big_int)]))
   \<and> (compute_hash 1000 (\<lambda>b. of_nat (length b)) (PDict [(lit ''n'', PInt big_int)])
         = Inl ValueError
       \<or> compute_hash 1000 (\<lambda>b. of_nat (length b)) (PDict [(lit ''n'', PInt big_int)])
         = Inl RecursionError)"
proof -
  have a: "depth (PDict [(lit ''y'', PList [PList [PFloat (Finite ''3.0'')]])]) \<le> 1000
      \<and> \<not> has_big_int (PDict [(lit ''y'', PList [PList [PFloat (Finite ''3.0'')]])])"
    by simp
  have b: "\<not> (depth (PDict [(lit ''n'', PInt big_int)]) \<le> 1000
        \<and> \<not> has_big_int (PDict [(lit ''n'', PInt big_int)]))"
    using too_many_digits_limit by simp
  show ?thesis
    using compute_hash_format [of "[(lit ''y'', PList [PList [PFloat (Finite ''3.0'')]])]" 1000
             "\<lambda>b. of_nat (length b)"]
          compute_hash_format [of "[(lit ''n'', PInt big_int)]" 1000 "\<lambda>b. of_nat (length b)"]
          a b
    by blast
qed

text \<open>
  Claim C2 as stated (a 66 character result for every output dict) fails at the dict
  \<open>{'x': 10 ** 4300}\<close>: \<open>json.dumps\<close> raises \<open>ValueError\<close>.
\<close>

theorem compute_hash_big_int_counterexample:
  "\<forall>H. compute_hash 1000 H (PDict [(lit ''x'', PInt big_int)]) = Inl ValueError"
  using too_many_digits_limit by (simp add: compute_hash_def lit_def)

subsection \<open>Non-finite numbers\<close>

text \<open>
  Claim C4 as stated fails in both halves: a dict with a NaN is hashed, not rejected, and
  a dict whose only number is the finite int \<open>10 ** 4300\<close> makes \<open>compute_hash\<close> raise.
\<close>

theorem compute_hash_nonfinite_counterexample:
  "(\<forall>H. has_nonfinite (PDict [(lit ''x'', PFloat NaN)])
        \<and> compute_hash 1000 H (PDict [(lit ''x'', PFloat NaN)])
            = Inr (''0x'' @ hexdigest (H (dumps (PDict [(lit ''x'', PFloat NaN)])))))
   \<and> (\<forall>H. \<not> has_nonfinite (PDict [(lit ''x'', PInt big_int)])
        \<and> compute_hash 1000 H (PDict [(lit ''x'', PInt big_int)]) = Inl ValueError)"
  using too_many_digits_limit by (simp add: compute_hash_def lit_def)

text \<open>
  Claim C4, amended. \<open>compute_hash\<close> has no check for non-finite numbers: NaN and the
  infinities are written \<open>NaN\<close>, \<open>Infinity\<close> and \<open>-Infinity\<close> and the hash of the text is
  returned. The call returns exactly when the value holds no int of more than 4300
  digits and is nested no deeper than the interpreter allows; otherwise it raises
  \<open>ValueError\<close> or \<open>RecursionError\<close>. Floats, finite or not, play no part in that.
\<close>

theorem compute_hash_raises_iff:
  "((\<exists>h. compute_hash r H v = Inr h) = (depth v \<le> r \<and> \<not> has_big_int v))
   \<and> (depth v \<le> r \<and> \<not> has_big_int v \<longrightarrow>
        compute_hash r H v = Inr (''0x'' @ hexdigest (H (dumps v))))
   \<and> (\<forall>e. compute_hash r H v = Inl e \<longrightarrow> e = ValueError \<or> e = RecursionError)
   \<and> depth (PFloat f) = 0 \<and> \<not> has_big_int (PFloat f)
   \<and> dumps (PFloat NaN) = ''NaN''
   \<and> dumps (PFloat PosInf) = ''Infinity''
   \<and> dumps (PFloat NegInf) = ''-Infinity''"
proof -
  have a: "(\<exists>h. compute_hash r H v = Inr h) = (depth v \<le> r \<and> \<not> has_big_int v)"
    using compute_hash_cases [of v r H] by auto
  have b: "\<forall>e. compute_hash r H v = Inl e \<longrightarrow> e = ValueError \<or> e = RecursionError"
    using compute_hash_cases [of v r H] by auto
  have c: "depth v \<le> r \<and> \<not> has_big_int v \<longrightarrow>
        compute_hash r H v = Inr (''0x'' @ hexdigest (H (dumps v)))"
    using compute_hash_returns [of v r H] by simp
  from a b c show ?thesis by simp
qed

theorem compute_hash_raises_iff_witness:
  "depth (PDict [(lit ''x'', PFloat NaN)]) \<le> 1000
   \<and> \<not> has_big_int (PDict [(lit ''x'', PFloat NaN)])
   \<and> compute_hash 1000 (\<lambda>b. of_nat (length b)) (PDict [(lit ''x'', PFloat NaN)])
       = Inr (''0x'' @ hexdigest (of_nat (length (dumps (PDict [(lit ''x'', PFloat NaN)])))))
   \<and> compute_hash 1000 (\<lambda>b. of_nat (length b)) (PDict [(lit ''x'', PInt big_int)])
       = Inl ValueError
   \<and> (ValueError = ValueError \<or> ValueError = RecursionError)"
proof -
  have a: "depth (PDict [(lit ''x'', PFloat NaN)]) \<le> 1000
      \<and> \<not> has_big_int (PDict [(lit ''x'', PFloat NaN)])"
    by simp
  have b: "compute_hash 1000 (\<lambda>b. of_nat (length b)) (PDict [(lit ''x'', PInt big_int)])
       = Inl ValueError"
    using too_many_digits_limit by (simp add: compute_hash_def lit_def)
  show ?thesis
    using compute_hash_raises_iff
            [of 1000 "\<lambda>b. of_nat (length b)" "PDict [(lit ''x'', PFloat NaN)]"]
          compute_hash_raises_iff
            [of 1000 "\<lambda>b. of_nat (length b)" "PDict [(lit ''x'', PInt big_int)]"]
          a b
    by blast
qed

section \<open>Properties of \<open>verify_cid\<close>\<close>

lemma endswith_iff: "endswith s t = (\<exists>p. s = p @ t)"
proof
  assume "endswith s t"
  then have "s = take (length s - length t) s @ t"
    by (metis append_take_drop_id endswith_def)
  then show "\<exists>p. s = p @ t" ..
next
  assume "\<exists>p. s = p @ t"
  then show "endswith s t"
    by (auto simp: endswith_def)
qed

text \<open>
  Claim C10. \<open>verify_cid(data, expected_cid)\<close> is true exactly when \<open>expected_cid\<close> ends
  with the first 32 hexadecimal digits of the SHA-256 digest of \<open>data\<close>. Only the last
  32 characters of the address are looked at: whatever is put in front of an accepted
  address is accepted too, and the answer is a function of those 32 characters alone.
\<close>

theorem verify_cid_suffix_only:
  "verify_cid H data expected_cid
     = (\<exists>p. expected_cid = p @ lit (take 32 (hexdigest (H data))))
   \<and> verify_cid H data (p @ lit (take 32 (hexdigest (H data))))
   \<and> verify_cid H data expected_cid
     = (32 \<le> length expected_cid
        \<and> drop (length expected_cid - 32) expected_cid = lit (take 32 (hexdigest (H data))))"
proof -
  let ?t = "lit (take 32 (hexdigest (H data)))"
  have len: "length ?t = 32"
    by (simp add: lit_def length_hexdigest)
  have a: "verify_cid H data expected_cid = (\<exists>p. expected_cid = p @ ?t)"
    by (simp add: verify_cid_def endswith_iff)
  have b: "verify_cid H data (p @ ?t)"
    by (simp add: verify_cid_def endswith_iff)
  have c: "verify_cid H data expected_cid
     = (32 \<le> length expected_cid \<and> drop (length expected_cid - 32) expected_cid = ?t)"
    using len by (simp add: verify_cid_def endswith_def)
  from a b c show ?thesis by blast
qed

section \<open>Properties of \<open>send_transaction\<close>\<close>





section \<open>Properties of \<open>upload_to_ipfs\<close>\<close>

text \<open>
  Claim C8 at a string with a lone surrogate: \<open>data.encode('utf-8')\<close> raises inside the
  \<open>try\<close>, the \<open>except\<close> branch calls \<open>data.encode()\<close> again, and that exception leaves
  the function, whatever the remote store does.
\<close>

theorem upload_to_ipfs_surrogate_raises:
  "upload_to_ipfs H post [0xD800] = Inl UnicodeEncodeError"
  by (simp add: upload_to_ipfs_def fallback_cid_def utf8_char_def)

text \<open>
  For a string that has a UTF-8 encoding and a request that is not cancelled the
  function does not raise: it returns \<open>ipfs://\<close> and the CID when the store answers 200
  with a \<open>Hash\<close>, and \<open>0x\<close> and the digest of the data in every other case; the two
  forms differ in their first character.
\<close>

lemma upload_to_ipfs_encodable:
  "encode_utf8 data = Inr bytes \<Longrightarrow>
     upload_to_ipfs H post data
       = (case post bytes of
            PostResponse status (Some result) \<Rightarrow>
              (case map_of result (lit ''Hash'') of
                 Some cid \<Rightarrow> if status = 200 then Inr (lit ''ipfs://'' @ cid)
                            else Inr (lit ''0x'' @ lit (hexdigest (H bytes)))
               | None \<Rightarrow> Inr (lit ''0x'' @ lit (hexdigest (H bytes))))
          | PostCancelled \<Rightarrow> Inl CancelledError
          | _ \<Rightarrow> Inr (lit ''0x'' @ lit (hexdigest (H bytes))))
   \<and> lit ''ipfs://'' @ cid \<noteq> lit ''0x'' @ lit (hexdigest (H bytes))"
  by (auto simp: upload_to_ipfs_def fallback_cid_def lit_def split: post_result.splits option.splits)

section \<open>Properties of \<open>run_batch\<close>\<close>

lemma concat_batches: "0 < k \<Longrightarrow> concat (batches k xs) = xs"
proof (induction k xs rule: batches.induct)
  case (1 k xs)
  show ?case
  proof (cases "xs = []")
    case True
    then show ?thesis by (subst batches.simps) simp
  next
    case False
    with 1 have "concat (batches k (drop k xs)) = drop k xs" by simp
    with False "1.prems" show ?thesis by (subst batches.simps) simp
  qed
qed

lemma batches_Nil: "batches k [] = []"
  by (subst batches.simps) simp

lemma batches_step:
  "0 < k \<Longrightarrow> xs \<noteq> [] \<Longrightarrow> batches k xs = take k xs # batches k (drop k xs)"
  by (subst batches.simps) simp

lemma batches_eq_Nil: "0 < k \<Longrightarrow> (batches k xs = []) = (xs = [])"
  by (cases "xs = []") (simp_all add: batches_Nil batches_step)

lemma batches_lengths:
  "0 < k \<Longrightarrow> c \<in> set (batches k xs) \<Longrightarrow> c \<noteq> [] \<and> length c \<le> k"
proof (induction k xs rule: batches.induct)
  case (1 k xs)
  show ?case
  proof (cases "xs = []")
    case True
    with "1.prems" show ?thesis by (simp add: batches_Nil)
  next
    case False
    with "1.prems" have "c = take k xs \<or> c \<in> set (batches k (drop k xs))"
      by (simp add: batches_step)
    then show ?thesis
    proof
      assume "c = take k xs"
      with False "1.prems" show ?thesis by simp
    next
      assume "c \<in> set (batches k (drop k xs))"
      with 1 False show ?thesis by simp
    qed
  qed
qed

lemma batches_full:
  "0 < k \<Longrightarrow> c \<in> set (butlast (batches k xs)) \<Longrightarrow> length c = k"
proof (induction k xs rule: batches.induct)
  case (1 k xs)
  show ?case
  proof (cases "xs = []")
    case True
    with "1.prems" show ?thesis by (simp add: batches_Nil)
  next
    case False
    show ?thesis
    proof (cases "drop k xs = []")
      case True
      with False "1.prems" show ?thesis by (simp add: batches_step batches_Nil)
    next
      case d: False
      then have ne: "batches k (drop k xs) \<noteq> []"
        using "1.prems" by (simp add: batches_eq_Nil)
      with False "1.prems" have "c = take k xs \<or> c \<in> set (butlast (batches k (drop k xs)))"
        by (simp add: batches_step)
      then show ?thesis
      proof
        assume "c = take k xs"
        with d show ?thesis by simp
      next
        assume "c \<in> set (butlast (batches k (drop k xs)))"
        with 1 False show ?thesis by simp
      qed
    qed
  qed
qed

lemma foldr_max_zero: "foldr max (map (\<lambda>x. 0) xs) (0::nat) = 0"
  by (induction xs) simp_all

lemma inference_results_ok:
  "2 \<le> r \<Longrightarrow> \<not> too_many_digits mt \<Longrightarrow>
     depth (inference_results eng ps outs mt t) \<le> r
     \<and> \<not> has_big_int (inference_results eng ps outs mt t)"
  using small_int_ok [of 0]
  by (simp add: inference_results_def comp_def foldr_max_zero list_ex_iff)

lemma batch_results_ok:
  "2 \<le> r \<Longrightarrow> \<not> too_many_digits bs \<Longrightarrow>
     depth (batch_results eng outs bs) \<le> r \<and> \<not> has_big_int (batch_results eng outs bs)"
  by (simp add: batch_results_def comp_def foldr_max_zero list_ex_iff)

lemma run_inference_returns:
  "generate eng ps (default_sampling mt) = Inr outs \<Longrightarrow> 2 \<le> r \<Longrightarrow> \<not> too_many_digits mt \<Longrightarrow>
     run_inference r H eng ps mt (Finite ''0.0'')
       = Inr (outs, ''0x'' @ hexdigest (H (dumps (inference_results eng ps outs mt (Finite ''0.0'')))))"
  using inference_results_ok [of r mt eng ps outs "Finite ''0.0''"]
  by (simp add: run_inference_def default_sampling_def Let_def compute_hash_returns)

lemma run_batches_returns:
  "(\<forall>c \<in> set cs. generate eng c (default_sampling mt) = Inr (out c)) \<Longrightarrow>
     2 \<le> r \<Longrightarrow> \<not> too_many_digits mt \<Longrightarrow>
     run_batches r H eng mt cs acc = Inr (acc @ concat (map out cs))"
  by (induction cs arbitrary: acc) (simp_all add: run_inference_returns)

lemma run_batch_returns:
  assumes "\<forall>c \<in> set (batches (nat batch_size) ps). generate eng c (default_sampling mt) = Inr (out c)"
    and "0 < batch_size" "2 \<le> r" "\<not> too_many_digits mt" "\<not> too_many_digits batch_size"
  shows "run_batch r H eng ps batch_size mt
       = Inr (concat (map out (batches (nat batch_size) ps)),
              ''0x'' @ hexdigest (H (dumps (batch_results eng
                 (concat (map out (batches (nat batch_size) ps))) batch_size))))"
proof -
  let ?outs = "concat (map out (batches (nat batch_size) ps))"
  have rb: "run_batches r H eng mt (batches (nat batch_size) ps) [] = Inr ([] @ ?outs)"
    using assms(1,3,4) by (rule run_batches_returns)
  have "depth (batch_results eng ?outs batch_size) \<le> r
      \<and> \<not> has_big_int (batch_results eng ?outs batch_size)"
    using assms(3,5) by (rule batch_results_ok)
  then have ch: "compute_hash r H (batch_results eng ?outs batch_size)
      = Inr (''0x'' @ hexdigest (H (dumps (batch_results eng ?outs batch_size))))"
    using compute_hash_returns by blast
  from assms(2) rb ch show ?thesis
    by (simp add: run_batch_def)
qed

lemma concat_map_batches:
  "0 < k \<Longrightarrow> concat (map (map f) (batches k xs)) = map f xs"
  using concat_batches [of k xs] by (metis map_concat)

lemma results_text_differ:
  "dumps (batch_results eng outs bs) \<noteq> dumps (inference_results eng' ps outs' mt t)"
  by (simp add: batch_results_def inference_results_def lit_def encode_basestring_ascii_def esc_char_def)

lemma hash_eq_iff: "(''0x'' @ hexdigest a = ''0x'' @ hexdigest b) = (a = b)"
  using hexdigest_inj by auto

lemma per_prompt_echo: "per_prompt echo_engine (\<lambda>sp p. p)"
  by (simp add: per_prompt_def echo_engine_def)


text \<open>
  Claim C5, amended. For every prompt list and every positive batch size \<open>run_batch\<close>
  cuts the prompts into consecutive chunks of the fixed size (the last one may be
  shorter, none is empty) that concatenate to the prompts, runs \<open>run_inference\<close> on each
  chunk in order, whatever the engine, and returns the concatenation of the chunks'
  outputs in that order. Given equal per-prompt engine output these outputs are those of
  a single \<open>run_inference\<close> over the whole list with the same \<open>max_tokens\<close> and the default
  temperature. The hash of \<open>run_batch\<close> is the hash of the dict with the keys \<open>outputs\<close>,
  \<open>model\<close> and \<open>batch_size\<close>, \<open>run_inference\<close> hashes the dict with the keys \<open>prompts\<close>,
  \<open>outputs\<close>, \<open>model\<close> and \<open>params\<close>: the two texts are never the same, and the two
  hashes are equal only if SHA-256 gives both texts the same digest. All this holds when
  the results can be serialized: \<open>max_tokens\<close> and \<open>batch_size\<close> of at most 4300 digits,
  and room for two levels of nesting.
\<close>

theorem run_batch_outputs_and_hash:
  "0 < batch_size \<Longrightarrow> 2 \<le> r \<Longrightarrow> \<not> too_many_digits mt \<Longrightarrow> \<not> too_many_digits batch_size \<Longrightarrow>
   (let chunks = batches (nat batch_size) prompts in
      concat chunks = prompts
    \<and> (\<forall>c \<in> set chunks. c \<noteq> [] \<and> length c \<le> nat batch_size)
    \<and> (\<forall>c \<in> set (butlast chunks). length c = nat batch_size)
    \<and> ((\<forall>c \<in> set chunks. generate eng c (default_sampling mt) = Inr (out c)) \<longrightarrow>
         run_batch r H eng prompts batch_size mt
           = Inr (concat (map out chunks),
                  ''0x'' @ hexdigest (H (dumps (batch_results eng (concat (map out chunks)) batch_size)))))
    \<and> (per_prompt eng g \<longrightarrow>
         (let outs = map (g (default_sampling mt)) prompts;
              batch_text = dumps (batch_results eng outs batch_size);
              single_text = dumps (inference_results eng prompts outs mt (Finite ''0.0''))
          in run_batch r H eng prompts batch_size mt
               = Inr (outs, ''0x'' @ hexdigest (H batch_text))
           \<and> run_inference r H eng prompts mt (Finite ''0.0'')
               = Inr (outs, ''0x'' @ hexdigest (H single_text))
           \<and> batch_text \<noteq> single_text
           \<and> (''0x'' @ hexdigest (H batch_text) = ''0x'' @ hexdigest (H single_text))
               = (H batch_text = H single_text))))"
proof -
  assume bs: "0 < batch_size" and r: "2 \<le> r"
    and mt: "\<not> too_many_digits mt" and bd: "\<not> too_many_digits batch_size"
  let ?chunks = "batches (nat batch_size) prompts"
  let ?sp = "default_sampling mt"
  from bs have k: "0 < nat batch_size" by simp
  have a: "concat ?chunks = prompts"
    using k by (rule concat_batches)
  have b: "\<forall>c \<in> set ?chunks. c \<noteq> [] \<and> length c \<le> nat batch_size"
    using k batches_lengths by blast
  have c: "\<forall>c \<in> set (butlast ?chunks). length c = nat batch_size"
    using k batches_full by blast
  have d: "(\<forall>c \<in> set ?chunks. generate eng c ?sp = Inr (out c)) \<longrightarrow>
         run_batch r H eng prompts batch_size mt
           = Inr (concat (map out ?chunks),
                  ''0x'' @ hexdigest (H (dumps (batch_results eng (concat (map out ?chunks)) batch_size))))"
    using bs r mt bd run_batch_returns [of batch_size prompts eng mt out r H] by blast
  have e: "run_batch r H eng prompts batch_size mt
               = Inr (map (g ?sp) prompts,
                   ''0x'' @ hexdigest (H (dumps (batch_results eng (map (g ?sp) prompts) batch_size))))
           \<and> run_inference r H eng prompts mt (Finite ''0.0'')
               = Inr (map (g ?sp) prompts,
                   ''0x'' @ hexdigest (H (dumps (inference_results eng prompts
                      (map (g ?sp) prompts) mt (Finite ''0.0'')))))"
    if pp: "per_prompt eng g"
  proof -
    from pp have gen: "generate eng ps ?sp = Inr (map (g ?sp) ps)" for ps
      by (simp add: per_prompt_def)
    then have "\<forall>c \<in> set ?chunks. generate eng c ?sp = Inr (map (g ?sp) c)"
      by simp
    then have "run_batch r H eng prompts batch_size mt
       = Inr (concat (map (map (g ?sp)) ?chunks),
              ''0x'' @ hexdigest (H (dumps (batch_results eng
                 (concat (map (map (g ?sp)) ?chunks)) batch_size))))"
      using bs r mt bd by (rule run_batch_returns)
    moreover have "concat (map (map (g ?sp)) ?chunks) = map (g ?sp) prompts"
      using k by (rule concat_map_batches)
    moreover have "run_inference r H eng prompts mt (Finite ''0.0'')
       = Inr (map (g ?sp) prompts, ''0x'' @ hexdigest (H (dumps (inference_results eng prompts
                      (map (g ?sp) prompts) mt (Finite ''0.0'')))))"
      using gen r mt by (rule run_inference_returns)
    ultimately show ?thesis by (simp only: simp_thms)
  qed
  show ?thesis
    unfolding Let_def
    apply (intro conjI impI)
           apply (rule a)
          apply (rule b)
         apply (rule c)
        apply (rule d [THEN mp], assumption)
       apply (rule e [THEN conjunct1], assumption)
      apply (rule e [THEN conjunct2], assumption)
     apply (rule results_text_differ)
    apply (rule hash_eq_iff)
    done
qed

lemma echo_generate: "generate echo_engine c sp = Inr c"
  by (simp add: echo_engine_def)

theorem run_batch_outputs_and_hash_witness:
  "(0::int) < 2 \<and> (2::nat) \<le> 1000 \<and> \<not> too_many_digits 100 \<and> \<not> too_many_digits 2
   \<and> (\<forall>c. generate echo_engine c (default_sampling 100) = Inr c)
   \<and> per_prompt echo_engine (\<lambda>sp p. p)
   \<and> concat (batches (nat 2) [lit ''a'', lit ''b'', lit ''c'']) = [lit ''a'', lit ''b'', lit ''c'']
   \<and> (\<exists>h. run_batch 1000 (\<lambda>b. of_nat (length b)) echo_engine [lit ''a'', lit ''b'', lit ''c''] 2 100
              = Inr ([lit ''a'', lit ''b'', lit ''c''], h))
   \<and> (\<exists>h. run_inference 1000 (\<lambda>b. of_nat (length b)) echo_engine [lit ''a'', lit ''b'', lit ''c'']
              100 (Finite ''0.0'')
              = Inr ([lit ''a'', lit ''b'', lit ''c''], h))"
proof -
  have h1: "(0::int) < 2" "(2::nat) \<le> 1000" by simp_all
  have h2: "\<not> too_many_digits 100" "\<not> too_many_digits 2"
    by (rule small_int_ok, simp)+
  have h3: "\<forall>c \<in> set (batches (nat 2) [lit ''a'', lit ''b'', lit ''c'']).
         generate echo_engine c (default_sampling 100) = Inr c"
    by (simp add: echo_generate)
  note t = run_batch_outputs_and_hash [OF h1 h2,
      where prompts = "[lit ''a'', lit ''b'', lit ''c'']" and eng = echo_engine
        and out = "\<lambda>c. c" and g = "\<lambda>sp p. p" and H = "\<lambda>b. of_nat (length b)"]
  from t h1 h2 h3 per_prompt_echo echo_generate show ?thesis
    by (simp add: Let_def)
qed

text \<open>
  Claim C5 as stated (the batched run and the single run return the same outputs and the
  same hash) fails on the prompts \<open>a\<close>, \<open>b\<close>, \<open>c\<close> with the batch size 2: both runs
  return, with the same outputs, but the hashed texts differ, and no property of the hash
  function makes the two hashes equal.
\<close>

theorem run_batch_hash_counterexample:
  "(\<forall>H. \<exists>hb hs.
        run_batch 1000 H echo_engine [lit ''a'', lit ''b'', lit ''c''] 2 100
          = Inr ([lit ''a'', lit ''b'', lit ''c''], hb)
      \<and> run_inference 1000 H echo_engine [lit ''a'', lit ''b'', lit ''c''] 100 (Finite ''0.0'')
          = Inr ([lit ''a'', lit ''b'', lit ''c''], hs))
   \<and> \<not> (\<forall>H. \<exists>outs h.
        run_batch 1000 H echo_engine [lit ''a'', lit ''b'', lit ''c''] 2 100 = Inr (outs, h)
      \<and> run_inference 1000 H echo_engine [lit ''a'', lit ''b'', lit ''c''] 100 (Finite ''0.0'')
          = Inr (outs, h))"
proof -
  define ps where "ps = [lit ''a'', lit ''b'', lit ''c'']"
  define tb where "tb = dumps (batch_results echo_engine ps 2)"
  define ts where "ts = dumps (inference_results echo_engine ps ps 100 (Finite ''0.0''))"
  define H1 :: "string \<Rightarrow> 256 word" where "H1 = (\<lambda>s. if s = tb then 0 else 1)"
  have h2: "\<not> too_many_digits 100" "\<not> too_many_digits 2"
    by (rule small_int_ok, simp)+
  have B: "run_batch 1000 H echo_engine ps 2 100 = Inr (ps, ''0x'' @ hexdigest (H tb))" for H
  proof -
    have "\<forall>c \<in> set (batches (nat 2) ps). generate echo_engine c (default_sampling 100) = Inr (id c)"
      by (simp add: echo_generate)
    then have "run_batch 1000 H echo_engine ps 2 100
       = Inr (concat (map id (batches (nat 2) ps)),
              ''0x'' @ hexdigest (H (dumps (batch_results echo_engine
                 (concat (map id (batches (nat 2) ps))) 2))))"
      using h2 by (intro run_batch_returns) simp_all
    moreover have "concat (map id (batches (nat 2) ps)) = ps"
      by (simp add: concat_batches)
    ultimately show ?thesis by (simp only: tb_def)
  qed
  have S: "run_inference 1000 H echo_engine ps 100 (Finite ''0.0'')
      = Inr (ps, ''0x'' @ hexdigest (H ts))" for H
    unfolding ts_def using h2 by (intro run_inference_returns echo_generate) simp_all
  have ne: "ts \<noteq> tb"
    unfolding ts_def tb_def using results_text_differ by metis
  have "\<not> (\<exists>outs h. run_batch 1000 H1 echo_engine ps 2 100 = Inr (outs, h)
      \<and> run_inference 1000 H1 echo_engine ps 100 (Finite ''0.0'') = Inr (outs, h))"
  proof
    assume "\<exists>outs h. run_batch 1000 H1 echo_engine ps 2 100 = Inr (outs, h)
      \<and> run_inference 1000 H1 echo_engine ps 100 (Finite ''0.0'') = Inr (outs, h)"
    then have "''0x'' @ hexdigest (H1 tb) = ''0x'' @ hexdigest (H1 ts)"
      by (auto simp: B S)
    then have "H1 tb = H1 ts" by (simp only: hash_eq_iff)
    with ne show False by (simp add: H1_def)
  qed
  then have "\<not> (\<forall>H. \<exists>outs h. run_batch 1000 H echo_engine ps 2 100 = Inr (outs, h)
      \<and> run_inference 1000 H echo_engine ps 100 (Finite ''0.0'') = Inr (outs, h))"
    by blast
  moreover have "\<forall>H. \<exists>hb hs. run_batch 1000 H echo_engine ps 2 100 = Inr (ps, hb)
      \<and> run_inference 1000 H echo_engine ps 100 (Finite ''0.0'') = Inr (ps, hs)"
    using B S by blast
  ultimately show ?thesis
    unfolding ps_def by (rule conjI [rotated])
qed

section \<open>The canonical text determines the canonical form\<close>

subsection \<open>Escapes are a prefix code\<close>

lemma div_mod_16_eq: "x div 16 = y div 16 \<Longrightarrow> x mod 16 = y mod 16 \<Longrightarrow> x = (y::nat)"
  by (metis div_mult_mod_eq)

lemma hex4_digits:
  assumes "hex4 a = hex4 b"
  shows "(a div 4096) mod 16 = (b div 4096) mod 16"
    and "(a div 256) mod 16 = (b div 256) mod 16"
    and "(a div 16) mod 16 = (b div 16) mod 16"
    and "a mod 16 = b mod 16"
proof -
  from assms have h1: "hexdigit (a div 4096) = hexdigit (b div 4096)"
    and h2: "hexdigit (a div 256) = hexdigit (b div 256)"
    and h3: "hexdigit (a div 16) = hexdigit (b div 16)"
    and h4: "hexdigit a = hexdigit b"
    by (simp_all add: hex4_def)
  show "(a div 4096) mod 16 = (b div 4096) mod 16" by (rule hexdigit_inj [OF h1])
  show "(a div 256) mod 16 = (b div 256) mod 16" by (rule hexdigit_inj [OF h2])
  show "(a div 16) mod 16 = (b div 16) mod 16" by (rule hexdigit_inj [OF h3])
  show "a mod 16 = b mod 16" by (rule hexdigit_inj [OF h4])
qed

lemma top_digit: "a < 65536 \<Longrightarrow> (a::nat) div 4096 < 16"
  by (rule less_mult_imp_div_less) simp

lemma div_chain: "(n::nat) div 4096 = n div 256 div 16" "n div 256 = n div 16 div 16"
  by (simp_all add: div_mult2_eq [symmetric])

lemma hex4_inj: "a < 65536 \<Longrightarrow> b < 65536 \<Longrightarrow> hex4 a = hex4 b \<Longrightarrow> a = b"
proof -
  assume a: "a < 65536" and b: "b < 65536" and h: "hex4 a = hex4 b"
  note m = hex4_digits [OF h]
  have "a div 4096 < 16" "b div 4096 < 16"
    using a b by (simp_all add: top_digit)
  with m(1) have d3: "a div 4096 = b div 4096" by simp
  from d3 have "a div 256 div 16 = b div 256 div 16" by (simp only: div_chain(1))
  with m(2) have "a div 256 = b div 256" by (rule div_mod_16_eq [rotated])
  then have "a div 16 div 16 = b div 16 div 16" by (simp only: div_chain(2))
  with m(3) have "a div 16 = b div 16" by (rule div_mod_16_eq [rotated])
  with m(4) show ?thesis by (rule div_mod_16_eq [rotated])
qed

lemma char_of_eq: "c < 256 \<Longrightarrow> (char_of (c::nat) = x) = (c = of_char x)"
proof
  assume c: "c < 256" and e: "char_of c = x"
  have "(of_char (char_of c) :: nat) = c mod 256" by (rule of_char_of)
  with c e show "c = of_char x" by simp
next
  assume "c = of_char x"
  then show "char_of c = x" by simp
qed

lemma length_hex4: "length (hex4 n) = 4"
  by (simp add: hex4_def)

lemma hex4_append: "(hex4 a @ r = hex4 b @ r') = (hex4 a = hex4 b \<and> r = r')"
  by (simp add: length_hex4)

lemma astral_inj:
  assumes "c < 0x110000" "d < 0x110000" "0x10000 \<le> c" "0x10000 \<le> d"
    and "((c - 0x10000) div 1024) mod 1024 = ((d - 0x10000) div 1024) mod 1024"
    and "(c - 0x10000) mod 1024 = (d - 0x10000) mod 1024"
  shows "c = (d::nat)"
proof -
  let ?n = "c - 0x10000" and ?m = "d - 0x10000"
  have "?n < 1024 * 1024" "?m < 1024 * 1024" using assms(1,2) by simp_all
  then have "?n div 1024 < 1024" "?m div 1024 < 1024"
    by (simp_all add: less_mult_imp_div_less)
  with assms(5) have "?n div 1024 = ?m div 1024" by simp
  with assms(6) have "?n = ?m" by (metis div_mult_mod_eq)
  with assms(3,4) show ?thesis by simp
qed

lemma esc_special:
  "special c \<Longrightarrow> \<exists>x. esc_char c = [CHR 0x5C, x] \<and> x \<noteq> CHR ''u''"
  by (auto simp: special_def esc_char_def)

lemma esc_special_inj: "special c \<Longrightarrow> special d \<Longrightarrow> esc_char c = esc_char d \<Longrightarrow> c = d"
  unfolding special_def by (elim disjE) (simp_all add: esc_char_def)

lemma esc_printable: "printable c \<Longrightarrow> esc_char c = [char_of c]"
  by (auto simp: printable_def esc_char_def)

lemma esc_bmp:
  "\<not> special c \<Longrightarrow> \<not> printable c \<Longrightarrow> c < 0x10000 \<Longrightarrow>
     esc_char c = CHR 0x5C # CHR ''u'' # hex4 c"
  by (auto simp: special_def printable_def esc_char_def)

lemma esc_astral:
  "0x10000 \<le> c \<Longrightarrow>
     esc_char c = CHR 0x5C # CHR ''u'' # hex4 (0xD800 + ((c - 0x10000) div 1024) mod 1024)
        @ CHR 0x5C # CHR ''u'' # hex4 (0xDC00 + (c - 0x10000) mod 1024)"
  by (simp add: esc_char_def Let_def)

lemma printable_char: "printable c \<Longrightarrow> char_of c \<noteq> CHR 0x5C \<and> char_of c \<noteq> CHR 0x22"
  by (auto simp: printable_def char_of_eq)

lemma printable_inj: "printable c \<Longrightarrow> printable d \<Longrightarrow> char_of c = char_of d \<Longrightarrow> c = d"
proof -
  assume c: "printable c" and d: "printable d" and e: "char_of c = char_of d"
  from c d have lt: "c < 256" "d < 256" by (simp_all add: printable_def)
  from lt(1) e have "c = of_char (char_of d)" by (simp add: char_of_eq)
  also have "\<dots> = d mod 256" by (rule of_char_of)
  finally show ?thesis using lt(2) by simp
qed

lemma unit_u: "esc_char d = CHR 0x5C # CHR ''u'' # t" if "\<not> special d" "\<not> printable d"
  "t = (if d < 0x10000 then hex4 d
        else hex4 (0xD800 + ((d - 0x10000) div 1024) mod 1024)
               @ CHR 0x5C # CHR ''u'' # hex4 (0xDC00 + (d - 0x10000) mod 1024))"
  using that esc_bmp [of d] esc_astral [of d] by (cases "d < 0x10000") simp_all

lemma not_special_astral: "0x10000 \<le> c \<Longrightarrow> \<not> special c \<and> \<not> printable c"
  by (auto simp: special_def printable_def)

lemma pc_SS:
  assumes "special c" "special d" "esc_char c @ r = esc_char d @ r'"
  shows "c = d \<and> r = r'"
proof -
  from assms(1) obtain x where x: "esc_char c = [CHR 0x5C, x]" using esc_special by blast
  from assms(2) obtain y where y: "esc_char d = [CHR 0x5C, y]" using esc_special by blast
  from assms(3) x y have "esc_char c = esc_char d" "r = r'" by simp_all
  with assms(1,2) show ?thesis using esc_special_inj by blast
qed

lemma pc_SP:
  assumes "special c" "printable d" "esc_char c @ r = esc_char d @ r'"
  shows False
proof -
  from assms(1) obtain x where x: "esc_char c = [CHR 0x5C, x]" using esc_special by blast
  from assms(3) x esc_printable [OF assms(2)] have "char_of d = CHR 0x5C" by simp
  with printable_char [OF assms(2)] show False by simp
qed

lemma pc_SU:
  assumes "special c" "\<not> special d" "\<not> printable d" "esc_char c @ r = esc_char d @ r'"
  shows False
proof -
  from assms(1) obtain x where x: "esc_char c = [CHR 0x5C, x]" "x \<noteq> CHR ''u''"
    using esc_special by blast
  obtain t where "esc_char d = CHR 0x5C # CHR ''u'' # t"
    using unit_u [OF assms(2,3)] by blast
  with assms(4) x show False by simp
qed

lemma pc_PP:
  assumes "printable c" "printable d" "esc_char c @ r = esc_char d @ r'"
  shows "c = d \<and> r = r'"
  using assms esc_printable [of c] esc_printable [of d] printable_inj [of c d] by simp

lemma pc_PU:
  assumes "printable c" "\<not> special d" "\<not> printable d" "esc_char c @ r = esc_char d @ r'"
  shows False
proof -
  obtain t where "esc_char d = CHR 0x5C # CHR ''u'' # t"
    using unit_u [OF assms(2,3)] by blast
  with assms(4) esc_printable [OF assms(1)] have "char_of c = CHR 0x5C" by simp
  with printable_char [OF assms(1)] show False by simp
qed

lemma pc_BB:
  assumes "\<not> special c" "\<not> printable c" "c < 0x10000"
    and "\<not> special d" "\<not> printable d" "d < 0x10000"
    and "esc_char c @ r = esc_char d @ r'"
  shows "c = d \<and> r = r'"
proof -
  from assms have "hex4 c @ r = hex4 d @ r'"
    by (simp add: esc_bmp)
  then have "hex4 c = hex4 d" "r = r'" by (simp_all add: hex4_append)
  with assms(3,6) show ?thesis using hex4_inj by blast
qed

lemma pc_BA:
  assumes "cp_ok c" "\<not> special c" "\<not> printable c" "c < 0x10000" "0x10000 \<le> d"
    and "esc_char c @ r = esc_char d @ r'"
  shows False
proof -
  let ?s = "0xD800 + ((d - 0x10000) div 1024) mod 1024"
  from assms have "hex4 c @ r = hex4 ?s @ (CHR 0x5C # CHR ''u'' # hex4 (0xDC00 + (d - 0x10000) mod 1024) @ r')"
    by (simp add: esc_bmp esc_astral)
  then have "hex4 c = hex4 ?s" by (simp only: hex4_append)
  moreover have "?s < 65536" by simp
  ultimately have "c = ?s" using assms(4) hex4_inj by simp
  then have "0xD800 \<le> c \<and> c < 0xE000" by simp
  with assms(1) show False by (simp add: cp_ok_def)
qed

lemma pc_AA:
  assumes "cp_ok c" "cp_ok d" "0x10000 \<le> c" "0x10000 \<le> d"
    and "esc_char c @ r = esc_char d @ r'"
  shows "c = d \<and> r = r'"
proof -
  let ?h = "\<lambda>c. 0xD800 + ((c - 0x10000) div 1024) mod 1024"
  let ?l = "\<lambda>c. 0xDC00 + (c - 0x10000) mod (1024::nat)"
  from assms(3,4,5) have
    "hex4 (?h c) @ (CHR 0x5C # CHR ''u'' # hex4 (?l c) @ r)
      = hex4 (?h d) @ (CHR 0x5C # CHR ''u'' # hex4 (?l d) @ r')"
    by (simp add: esc_astral)
  then have h: "hex4 (?h c) = hex4 (?h d)" and l: "hex4 (?l c) @ r = hex4 (?l d) @ r'"
    by (simp_all only: hex4_append list.inject simp_thms)
  from l have l': "hex4 (?l c) = hex4 (?l d)" and r: "r = r'"
    by (simp_all only: hex4_append)
  have "?h c < 65536" "?h d < 65536" "?l c < 65536" "?l d < 65536" by simp_all
  with h l' have "?h c = ?h d" "?l c = ?l d" using hex4_inj by blast+
  then have "((c - 0x10000) div 1024) mod 1024 = ((d - 0x10000) div 1024) mod 1024"
    "(c - 0x10000) mod 1024 = (d - 0x10000) mod 1024" by simp_all
  moreover from assms(1,2) have "c < 0x110000" "d < 0x110000" by (simp_all add: cp_ok_def)
  ultimately have "c = d" using assms(3,4) by (rule astral_inj [rotated 4])
  with r show ?thesis by simp
qed

lemma esc_classes:
  "special c \<or> printable c \<or> (\<not> special c \<and> \<not> printable c \<and> c < 0x10000) \<or> 0x10000 \<le> c"
  by auto

lemma esc_prefix_code:
  assumes c: "cp_ok c" and d: "cp_ok d" and e: "esc_char c @ r = esc_char d @ r'"
  shows "c = d \<and> r = r'"
proof -
  note e' = e [symmetric]
  consider (S) "special c" | (P) "printable c"
    | (B) "\<not> special c" "\<not> printable c" "c < 0x10000" | (A) "0x10000 \<le> c"
    using esc_classes [of c] by blast
  then show ?thesis
  proof cases
    case S
    consider (S') "special d" | (P') "printable d" | (U') "\<not> special d" "\<not> printable d"
      by blast
    then show ?thesis
    proof cases
      case S' with S e show ?thesis using pc_SS by blast
    next
      case P' with S e show ?thesis using pc_SP by blast
    next
      case U' with S e show ?thesis using pc_SU by blast
    qed
  next
    case P
    consider (S') "special d" | (P') "printable d" | (U') "\<not> special d" "\<not> printable d"
      by blast
    then show ?thesis
    proof cases
      case S' with P e' show ?thesis using pc_SP by blast
    next
      case P' with P e show ?thesis using pc_PP by blast
    next
      case U' with P e show ?thesis using pc_PU by blast
    qed
  next
    case B
    consider (S') "special d" | (P') "printable d"
      | (B') "\<not> special d" "\<not> printable d" "d < 0x10000" | (A') "0x10000 \<le> d"
      using esc_classes [of d] by blast
    then show ?thesis
    proof cases
      case S' with B e' show ?thesis using pc_SU by blast
    next
      case P' with B e' show ?thesis using pc_PU by blast
    next
      case B' with B e show ?thesis using pc_BB by blast
    next
      case A' with B c e show ?thesis using pc_BA by blast
    qed
  next
    case A
    then have na: "\<not> special c" "\<not> printable c" using not_special_astral by blast+
    consider (S') "special d" | (P') "printable d"
      | (B') "\<not> special d" "\<not> printable d" "d < 0x10000" | (A') "0x10000 \<le> d"
      using esc_classes [of d] by blast
    then show ?thesis
    proof cases
      case S' with na e' show ?thesis using pc_SU by blast
    next
      case P' with na e' show ?thesis using pc_PU by blast
    next
      case B' with A d e' show ?thesis using pc_BA by blast
    next
      case A' with A c d e show ?thesis using pc_AA by blast
    qed
  qed
qed


lemma esc_nonempty: "esc_char c \<noteq> []"
proof -
  consider (S) "special c" | (P) "printable c" | (U) "\<not> special c" "\<not> printable c"
    by blast
  then show ?thesis
  proof cases
    case S
    then obtain x where "esc_char c = [CHR 0x5C, x]" using esc_special by blast
    then show ?thesis by simp
  next
    case P
    then show ?thesis using esc_printable [of c] by simp
  next
    case U
    then obtain t where "esc_char c = CHR 0x5C # CHR ''u'' # t" using unit_u by blast
    then show ?thesis by simp
  qed
qed

lemma esc_no_quote: "hd (esc_char c) \<noteq> CHR 0x22"
proof -
  consider (S) "special c" | (P) "printable c" | (U) "\<not> special c" "\<not> printable c"
    by blast
  then show ?thesis
  proof cases
    case S
    then obtain x where "esc_char c = [CHR 0x5C, x]" using esc_special by blast
    then show ?thesis by simp
  next
    case P
    then show ?thesis using esc_printable [of c] printable_char [of c] by simp
  next
    case U
    then obtain t where "esc_char c = CHR 0x5C # CHR ''u'' # t" using unit_u by blast
    then show ?thesis by simp
  qed
qed

lemma esc_Cons: "\<exists>x t. esc_char c = x # t \<and> x \<noteq> CHR 0x22"
  using esc_nonempty [of c] esc_no_quote [of c] by (cases "esc_char c") auto

subsection \<open>The text of a string ends at its closing quote\<close>

lemma string_body_unique:
  "list_all cp_ok s \<Longrightarrow> list_all cp_ok t \<Longrightarrow>
     concat (map esc_char s) @ CHR 0x22 # r = concat (map esc_char t) @ CHR 0x22 # r' \<Longrightarrow>
     s = t \<and> r = r'"
proof (induction s arbitrary: t)
  case Nil
  show ?case
  proof (cases t)
    case Nil
    with Nil.prems show ?thesis by simp
  next
    case (Cons d ds)
    obtain x u where xu: "esc_char d = x # u" "x \<noteq> CHR 0x22" using esc_Cons by blast
    from Nil.prems(3) Cons have "CHR 0x22 # r = esc_char d @ (concat (map esc_char ds) @ CHR 0x22 # r')"
      by simp
    with xu show ?thesis by simp
  qed
next
  case (Cons c cs)
  show ?case
  proof (cases t)
    case Nil
    obtain x u where xu: "esc_char c = x # u" "x \<noteq> CHR 0x22" using esc_Cons by blast
    from Cons.prems(3) Nil have "esc_char c @ (concat (map esc_char cs) @ CHR 0x22 # r) = CHR 0x22 # r'"
      by simp
    with xu show ?thesis by simp
  next
    case (Cons d ds)
    from Cons.prems(3) Cons have e:
      "esc_char c @ (concat (map esc_char cs) @ CHR 0x22 # r)
         = esc_char d @ (concat (map esc_char ds) @ CHR 0x22 # r')"
      by simp
    from Cons.prems(1,2) Cons have ok: "cp_ok c" "cp_ok d" "list_all cp_ok cs" "list_all cp_ok ds"
      by simp_all
    from esc_prefix_code [OF ok(1,2) e] have cd: "c = d"
      and rest: "concat (map esc_char cs) @ CHR 0x22 # r = concat (map esc_char ds) @ CHR 0x22 # r'"
      by simp_all
    from Cons.IH [OF ok(3,4) rest] have "cs = ds" "r = r'" by simp_all
    with cd Cons show ?thesis by simp
  qed
qed

lemma string_unique:
  "list_all cp_ok s \<Longrightarrow> list_all cp_ok t \<Longrightarrow>
     encode_basestring_ascii s @ r = encode_basestring_ascii t @ r' \<Longrightarrow> s = t \<and> r = r'"
  using string_body_unique [of s t r r'] by (simp add: encode_basestring_ascii_def)

subsection \<open>The text of an int\<close>

lemma digit_mem: "d < 10 \<Longrightarrow> hexdigit d \<in> set ''0123456789''"
proof -
  assume d: "d < 10"
  have "hexdigit d = (''0123456789'' @ ''abcdef'') ! d"
    using d by (simp add: hexdigit_def)
  also have "\<dots> = ''0123456789'' ! d"
    using d by (simp only: nth_append) simp
  finally show ?thesis using d by (simp only: ) (rule nth_mem, simp)
qed

lemma digit_inj: "a < 10 \<Longrightarrow> b < 10 \<Longrightarrow> hexdigit a = hexdigit b \<Longrightarrow> a = b"
proof -
  assume a: "a < 10" and b: "b < 10" and h: "hexdigit a = hexdigit b"
  from h have "a mod 16 = b mod 16" by (rule hexdigit_inj)
  with a b show ?thesis by simp
qed

lemma dec_small: "n < 10 \<Longrightarrow> dec n = [hexdigit n]"
  by (subst dec.simps) simp

lemma dec_large: "\<not> n < 10 \<Longrightarrow> dec n = dec (n div 10) @ [hexdigit (n mod 10)]"
  by (subst dec.simps) simp

lemma dec_nonempty: "dec n \<noteq> []"
  by (cases "n < 10") (simp_all add: dec_small dec_large)

lemma dec_chars: "set (dec n) \<subseteq> set ''0123456789''"
proof (induction n rule: dec.induct)
  case (1 n)
  show ?case
  proof (cases "n < 10")
    case True
    then show ?thesis using digit_mem [of n] by (simp only: dec_small) simp
  next
    case False
    have "n mod 10 < 10" by simp
    then have d: "hexdigit (n mod 10) \<in> set ''0123456789''" by (rule digit_mem)
    from False have e: "dec n = dec (n div 10) @ [hexdigit (n mod 10)]" by (rule dec_large)
    from False have ih: "set (dec (n div 10)) \<subseteq> set ''0123456789''" by (rule "1.IH")
    show ?thesis unfolding e using ih d by auto
  qed
qed

lemma dec_inj: "dec n = dec m \<Longrightarrow> n = m"
proof (induction n arbitrary: m rule: dec.induct)
  case (1 n)
  show ?case
  proof (cases "n < 10")
    case n: True
    show ?thesis
    proof (cases "m < 10")
      case True
      with n "1.prems" have "hexdigit n = hexdigit m" by (simp add: dec_small)
      with n True show ?thesis by (rule digit_inj)
    next
      case False
      with n "1.prems" have "[hexdigit n] = dec (m div 10) @ [hexdigit (m mod 10)]"
        by (simp add: dec_small dec_large)
      then have "dec (m div 10) = []" by simp
      then show ?thesis using dec_nonempty by blast
    qed
  next
    case n: False
    show ?thesis
    proof (cases "m < 10")
      case True
      with n "1.prems" have "dec (n div 10) @ [hexdigit (n mod 10)] = [hexdigit m]"
        by (simp add: dec_small dec_large)
      then have "dec (n div 10) = []" by simp
      then show ?thesis using dec_nonempty by blast
    next
      case False
      with n "1.prems" have
        "dec (n div 10) @ [hexdigit (n mod 10)] = dec (m div 10) @ [hexdigit (m mod 10)]"
        by (simp add: dec_large)
      then have q: "dec (n div 10) = dec (m div 10)"
        and r: "hexdigit (n mod 10) = hexdigit (m mod 10)"
        by simp_all
      from n q have "n div 10 = m div 10" by (rule "1.IH")
      moreover have "n mod 10 = m mod 10"
        using r by (rule digit_inj [rotated 2]) simp_all
      ultimately show ?thesis by (metis div_mult_mod_eq)
    qed
  qed
qed


lemma no_minus_dec: "CHR ''-'' \<notin> set (dec n)"
proof
  assume "CHR ''-'' \<in> set (dec n)"
  then have "CHR ''-'' \<in> set ''0123456789''" using dec_chars by blast
  then show False by simp
qed

lemma int_repr_nonempty: "int_repr i \<noteq> []"
  by (simp add: int_repr_def dec_nonempty)

lemma int_repr_chars: "set (int_repr i) \<subseteq> set ''-0123456789''"
proof -
  have s: "set ''0123456789'' \<subseteq> set ''-0123456789''" by (rule set_subset_Cons)
  show ?thesis
  proof (cases "i < 0")
    case True
    have "set (dec (nat (- i))) \<subseteq> set ''-0123456789''"
      using dec_chars s by (rule subset_trans)
    with True show ?thesis by (simp add: int_repr_def)
  next
    case False
    have "set (dec (nat i)) \<subseteq> set ''-0123456789''"
      using dec_chars s by (rule subset_trans)
    with False show ?thesis by (simp add: int_repr_def)
  qed
qed

lemma int_repr_inj: "int_repr i = int_repr j \<Longrightarrow> i = j"
proof -
  assume e: "int_repr i = int_repr j"
  show ?thesis
  proof (cases "i < 0")
    case i: True
    show ?thesis
    proof (cases "j < 0")
      case True
      with i e have "dec (nat (- i)) = dec (nat (- j))" by (simp add: int_repr_def)
      then have "nat (- i) = nat (- j)" by (rule dec_inj)
      with i True show ?thesis by simp
    next
      case False
      with i e have "CHR ''-'' # dec (nat (- i)) = dec (nat j)" by (simp add: int_repr_def)
      then have "set (CHR ''-'' # dec (nat (- i))) = set (dec (nat j))" by (rule arg_cong)
      then have "CHR ''-'' \<in> set (dec (nat j))" by auto
      then show ?thesis using no_minus_dec by blast
    qed
  next
    case i: False
    show ?thesis
    proof (cases "j < 0")
      case True
      with i e have "dec (nat i) = CHR ''-'' # dec (nat (- j))" by (simp add: int_repr_def)
      then have "set (dec (nat i)) = set (CHR ''-'' # dec (nat (- j)))" by (rule arg_cong)
      then have "CHR ''-'' \<in> set (dec (nat i))" by auto
      then show ?thesis using no_minus_dec by blast
    next
      case False
      with i e have "dec (nat i) = dec (nat j)" by (simp add: int_repr_def)
      then have "nat i = nat j" by (rule dec_inj)
      with i False show ?thesis by simp
    qed
  qed
qed

subsection \<open>The text of a scalar\<close>

lemma tok_int_alphabet: "list_all is_tok ''-0123456789''"
  by (simp add: is_tok_def delim_def)

lemma tok_float_alphabet: "list_all is_tok ''0123456789+-.e''"
  by (simp add: is_tok_def delim_def)

lemma tok_subset: "set xs \<subseteq> set ys \<Longrightarrow> list_all is_tok ys \<Longrightarrow> list_all is_tok xs"
  by (auto simp: list_all_iff)

lemma float_text_chars: "float_text r \<Longrightarrow> set r \<subseteq> set ''0123456789+-.e''"
  unfolding float_text_def list_all_iff by blast

lemma scalar_chars: "is_scalar v \<Longrightarrow> well_formed v \<Longrightarrow> dumps v \<noteq> [] \<and> list_all is_tok (dumps v)"
proof (cases v)
  case (PInt i)
  have "list_all is_tok (int_repr i)"
    using int_repr_chars tok_int_alphabet by (rule tok_subset)
  with PInt show ?thesis by (simp add: int_repr_nonempty)
next
  case (PFloat f)
  assume w: "well_formed v"
  show ?thesis
  proof (cases f)
    case (Finite r)
    with PFloat w have ft: "float_text r" by simp
    have "list_all is_tok r"
      using float_text_chars [OF ft] tok_float_alphabet by (rule tok_subset)
    moreover from ft have "r \<noteq> []" by (simp add: float_text_def)
    ultimately show ?thesis using PFloat Finite by simp
  next
    case NaN
    with PFloat show ?thesis by (simp add: is_tok_def delim_def)
  next
    case PosInf
    with PFloat show ?thesis by (simp add: is_tok_def delim_def)
  next
    case NegInf
    with PFloat show ?thesis by (simp add: is_tok_def delim_def)
  qed
next
  case PNone
  then show ?thesis by (simp add: is_tok_def delim_def)
next
  case (PBool b)
  then show ?thesis by (simp add: is_tok_def delim_def)
next
  case (PStr s)
  assume "is_scalar v"
  with PStr show ?thesis by simp
next
  case (PList xs)
  assume "is_scalar v"
  with PList show ?thesis by simp
next
  case (PDict kvs)
  assume "is_scalar v"
  with PDict show ?thesis by simp
qed

lemma int_text_kind: "text_kind (int_repr i) = 8"
proof -
  have "c \<notin> set (int_repr i)" if "c \<notin> set ''-0123456789''" for c
    using that int_repr_chars [of i] by blast
  then have "CHR ''I'' \<notin> set (int_repr i)" "CHR ''N'' \<notin> set (int_repr i)"
    "CHR ''n'' \<notin> set (int_repr i)" "CHR ''t'' \<notin> set (int_repr i)"
    "CHR ''f'' \<notin> set (int_repr i)" "CHR ''.'' \<notin> set (int_repr i)"
    "CHR ''e'' \<notin> set (int_repr i)"
    by simp_all
  then show ?thesis by (simp add: text_kind_def)
qed

lemma float_text_kind: "float_text r \<Longrightarrow> text_kind r = 7"
proof -
  assume ft: "float_text r"
  have "c \<notin> set r" if "c \<notin> set ''0123456789+-.e''" for c
    using that float_text_chars [OF ft] by blast
  then have "CHR ''I'' \<notin> set r" "CHR ''N'' \<notin> set r" "CHR ''n'' \<notin> set r"
    "CHR ''t'' \<notin> set r" "CHR ''f'' \<notin> set r"
    by simp_all
  moreover from ft have "CHR ''.'' \<in> set r \<or> CHR ''e'' \<in> set r"
    by (auto simp: float_text_def list_ex_iff)
  ultimately show ?thesis by (simp add: text_kind_def)
qed

lemma text_kind_dumps: "is_scalar v \<Longrightarrow> well_formed v \<Longrightarrow> text_kind (dumps v) = kind v"
proof (cases v)
  case (PFloat f)
  assume "well_formed v"
  with PFloat show ?thesis
    by (cases f) (simp_all add: float_text_kind, simp_all add: text_kind_def)
next
  case (PInt i)
  then show ?thesis by (simp add: int_text_kind)
qed (simp_all add: text_kind_def)

lemma scalar_inj:
  assumes "is_scalar v" "is_scalar w" "well_formed v" "well_formed w" "dumps v = dumps w"
  shows "v = w"
proof -
  from assms have k: "kind v = kind w"
    using text_kind_dumps [of v] text_kind_dumps [of w] by simp
  show ?thesis
  proof (cases v)
    case PNone
    with k assms(2) show ?thesis by (cases w rule: kind.cases) (simp_all split: if_splits)
  next
    case (PBool b)
    with k assms(2) show ?thesis by (cases w rule: kind.cases) (simp_all split: if_splits)
  next
    case (PInt i)
    with k assms(2,5) show ?thesis
      by (cases w rule: kind.cases) (simp_all add: int_repr_inj split: if_splits)
  next
    case (PFloat f)
    with k assms(2,5) show ?thesis
      by (cases f; cases w rule: kind.cases) (simp_all split: if_splits)
  next
    case (PStr s)
    with assms(1) show ?thesis by simp
  next
    case (PList xs)
    with assms(1) show ?thesis by simp
  next
    case (PDict kvs)
    with assms(1) show ?thesis by simp
  qed
qed

subsection \<open>Tokens and separators\<close>

lemma token_unique:
  "list_all is_tok t \<Longrightarrow> list_all is_tok u \<Longrightarrow> okr r \<Longrightarrow> okr r' \<Longrightarrow>
     t @ r = u @ r' \<Longrightarrow> t = u \<and> r = r'"
proof (induction t arbitrary: u)
  case Nil
  show ?case
  proof (cases u)
    case Nil
    with Nil.prems show ?thesis by simp
  next
    case (Cons y ys)
    with Nil.prems have "r = y # ys @ r'" "is_tok y" by simp_all
    with Nil.prems(3) show ?thesis by (simp add: okr_def is_tok_def)
  qed
next
  case (Cons x xs)
  show ?case
  proof (cases u)
    case Nil
    with Cons.prems have "r' = x # xs @ r" "is_tok x" by simp_all
    with Cons.prems(4) show ?thesis by (simp add: okr_def is_tok_def)
  next
    case (Cons y ys)
    with Cons.prems have "x = y" "xs @ r = ys @ r'" "list_all is_tok xs" "list_all is_tok ys"
      by simp_all
    with Cons.IH [of ys] Cons.prems(3,4) Cons show ?thesis by simp
  qed
qed

lemma join_Cons: "join s (a # as) = a @ (if as = [] then [] else s @ join s as)"
  by (cases as) simp_all

lemma join_unique:
  assumes ud: "\<And>x y r r'. x \<in> set xs \<Longrightarrow> Q y \<Longrightarrow> okr r \<Longrightarrow> okr r' \<Longrightarrow>
                 t x @ r = t y @ r' \<Longrightarrow> k x = k y \<and> r = r'"
    and hx: "\<And>z. z \<in> set xs \<Longrightarrow> t z \<noteq> [] \<and> \<not> delim (hd (t z))"
    and hy: "\<And>z. z \<in> set ys \<Longrightarrow> t z \<noteq> [] \<and> \<not> delim (hd (t z))"
    and q: "\<And>y. y \<in> set ys \<Longrightarrow> Q y"
    and cl: "delim cl" "cl \<noteq> CHR '',''"
    and eq: "join '','' (map t xs) @ cl # r = join '','' (map t ys) @ cl # r'"
  shows "map k xs = map k ys \<and> r = r'"
  using ud hx hy q eq
proof (induction xs arbitrary: ys)
  case Nil
  show ?case
  proof (cases ys)
    case Nil
    with Nil.prems(5) show ?thesis by simp
  next
    case (Cons y ys')
    from Nil.prems(3) [of y] Cons have h: "t y \<noteq> []" "\<not> delim (hd (t y))" by simp_all
    from Nil.prems(5) Cons have "cl # r = t y @ ((if ys' = [] then [] else '','' @ join '','' (map t ys')) @ cl # r')"
      by (simp add: join_Cons)
    with h(1) have "cl = hd (t y)" by (cases "t y") simp_all
    with h(2) cl(1) show ?thesis by simp
  qed
next
  case (Cons x xs')
  show ?case
  proof (cases ys)
    case Nil
    from Cons.prems(2) [of x] have h: "t x \<noteq> []" "\<not> delim (hd (t x))" by simp_all
    from Cons.prems(5) Nil have "t x @ ((if xs' = [] then [] else '','' @ join '','' (map t xs')) @ cl # r) = cl # r'"
      by (simp add: join_Cons)
    with h(1) have "cl = hd (t x)" by (cases "t x") simp_all
    with h(2) cl(1) show ?thesis by simp
  next
    case (Cons y ys')
    let ?R = "(if xs' = [] then [] else '','' @ join '','' (map t xs')) @ cl # r"
    let ?R' = "(if ys' = [] then [] else '','' @ join '','' (map t ys')) @ cl # r'"
    from Cons.prems(5) Cons have e: "t x @ ?R = t y @ ?R'"
      by (simp add: join_Cons)
    have o: "okr ?R" "okr ?R'" using cl(1) by (simp_all add: okr_def delim_def)
    from Cons.prems(4) [of y] Cons have qy: "Q y" by simp
    from Cons.prems(1) [of x y ?R ?R'] qy o e have kx: "k x = k y" and R: "?R = ?R'"
      by simp_all
    show ?thesis
    proof (cases "xs' = []")
      case x0: True
      show ?thesis
      proof (cases "ys' = []")
        case True
        with x0 R kx Cons show ?thesis by simp
      next
        case False
        with x0 R cl(2) show ?thesis by simp
      qed
    next
      case x1: False
      show ?thesis
      proof (cases "ys' = []")
        case True
        with x1 R cl(2) show ?thesis by simp
      next
        case False
        with x1 R have e': "join '','' (map t xs') @ cl # r = join '','' (map t ys') @ cl # r'"
          by simp
        have "map k xs' = map k ys' \<and> r = r'"
        proof (rule Cons.IH [of ys'])
          show "k a = k b \<and> s = s'"
            if "a \<in> set xs'" "Q b" "okr s" "okr s'" "t a @ s = t b @ s'" for a b s s'
            using that Cons.prems(1) [of a b s s'] by simp
          show "\<And>z. z \<in> set xs' \<Longrightarrow> t z \<noteq> [] \<and> \<not> delim (hd (t z))"
            using Cons.prems(2) by simp
          show "\<And>z. z \<in> set ys' \<Longrightarrow> t z \<noteq> [] \<and> \<not> delim (hd (t z))"
            using Cons.prems(3) Cons by simp
          show "\<And>y. y \<in> set ys' \<Longrightarrow> Q y"
            using Cons.prems(4) Cons by simp
          show "join '','' (map t xs') @ cl # r = join '','' (map t ys') @ cl # r'"
            by (rule e')
        qed
        with kx Cons show ?thesis by simp
      qed
    qed
  qed
qed

subsection \<open>Sorting the items\<close>

lemma insort_key_map_fst:
  "(\<And>x. fst (g x) = fst x) \<Longrightarrow>
     insort_key fst (g x) (map g ys) = map g (insort_key fst x ys)"
  by (induction ys) simp_all

lemma sort_key_map_fst:
  "(\<And>x. fst (g x) = fst x) \<Longrightarrow> sort_key fst (map g xs) = map g (sort_key fst xs)"
  by (induction xs) (simp_all add: insort_key_map_fst)

lemma sort_key_idem: "sort_key f (sort_key f xs) = sort_key f xs"
  by (simp add: sort_key_id_if_sorted)

lemma dumps_canon: "dumps (canon v) = dumps v"
proof (induction v rule: canon.induct)
  case (1 xs)
  then have m: "map dumps (map canon xs) = map dumps xs"
    by simp
  show ?case by (simp only: canon.simps dumps.simps m)
next
  case (2 kvs)
  let ?c = "\<lambda>p. (fst p, canon (snd p))"
  let ?d = "\<lambda>p. (fst p, dumps (snd p))"
  have a: "map ?d (sort_key fst (map ?c kvs)) = sort_key fst (map ?d (map ?c kvs))"
    by (rule sort_key_map_fst [symmetric]) simp
  have b: "map ?d (map ?c kvs) = map ?d kvs"
    using 2 by (simp cong: map_cong)
  show ?case
    by (simp only: canon.simps dumps.simps a b sort_key_idem)
qed simp_all

lemma sort_key_distinct_set_eq:
  assumes "distinct (map f xs)" "distinct (map f ys)" "set xs = set ys"
  shows "sort_key f xs = sort_key f ys"
proof -
  have "map f (sort_key f xs) = map f (sort_key f ys)"
  proof (rule sorted_distinct_set_unique)
    show "sorted (map f (sort_key f xs))" "sorted (map f (sort_key f ys))" by simp_all
    show "distinct (map f (sort_key f xs))" using assms(1) by (simp add: distinct_map)
    show "distinct (map f (sort_key f ys))" using assms(2) by (simp add: distinct_map)
    show "set (map f (sort_key f xs)) = set (map f (sort_key f ys))" using assms(3) by simp
  qed
  moreover have "inj_on f (set (sort_key f xs) \<union> set (sort_key f ys))"
    using assms by (simp add: distinct_map)
  ultimately show ?thesis
    by (simp add: inj_on_map_eq_map)
qed

lemma canon_reorder:
  assumes "distinct (map fst kvs1)" "distinct (map fst kvs2)" "set kvs1 = set kvs2"
  shows "canon (PDict kvs1) = canon (PDict kvs2)"
proof -
  let ?c = "\<lambda>p. (fst p, canon (snd p))"
  have "sort_key fst (map ?c kvs1) = sort_key fst (map ?c kvs2)"
  proof (rule sort_key_distinct_set_eq)
    show "distinct (map fst (map ?c kvs1))" using assms(1) by (simp add: comp_def)
    show "distinct (map fst (map ?c kvs2))" using assms(2) by (simp add: comp_def)
    show "set (map ?c kvs1) = set (map ?c kvs2)" using assms(3) by simp
  qed
  then show ?thesis by simp
qed

subsection \<open>The text of a value\<close>

lemma dumps_dict_text:
  "dumps (PDict kvs) = CHR ''{'' # join '',''
      (map (\<lambda>p. encode_basestring_ascii (fst p) @ CHR '':'' # dumps (snd p)) (sort_key fst kvs))
      @ ''}''"
proof -
  have "sort_key fst (map (\<lambda>p. (fst p, dumps (snd p))) kvs)
      = map (\<lambda>p. (fst p, dumps (snd p))) (sort_key fst kvs)"
    by (rule sort_key_map_fst) simp
  then show ?thesis by (simp add: comp_def)
qed

lemma canon_dict:
  "canon (PDict kvs) = PDict (map (\<lambda>p. (fst p, canon (snd p))) (sort_key fst kvs))"
proof -
  have "sort_key fst (map (\<lambda>p. (fst p, canon (snd p))) kvs)
      = map (\<lambda>p. (fst p, canon (snd p))) (sort_key fst kvs)"
    by (rule sort_key_map_fst) simp
  then show ?thesis by simp
qed

lemma scalar_head: "is_scalar v \<Longrightarrow> well_formed v \<Longrightarrow> dumps v \<noteq> [] \<and> is_tok (hd (dumps v))"
proof -
  assume "is_scalar v" "well_formed v"
  then have "dumps v \<noteq> []" "list_all is_tok (dumps v)" using scalar_chars by blast+
  then show ?thesis by (cases "dumps v") simp_all
qed

lemma nonscalar_head: "\<not> is_scalar w \<Longrightarrow> dumps w \<noteq> [] \<and> \<not> is_tok (hd (dumps w))"
  by (cases w) (simp_all add: is_tok_def encode_basestring_ascii_def)

lemma dumps_head: "well_formed v \<Longrightarrow> dumps v \<noteq> [] \<and> \<not> delim (hd (dumps v))"
proof (cases "is_scalar v")
  case True
  assume "well_formed v"
  with True show ?thesis using scalar_head [of v] by (simp add: is_tok_def)
next
  case False
  then show ?thesis
    by (cases v) (simp_all add: delim_def encode_basestring_ascii_def)
qed

lemma scalar_case:
  assumes "is_scalar v" "well_formed v" "well_formed w" "okr r" "okr r'" "dumps v @ r = dumps w @ r'"
  shows "v = w \<and> r = r'"
proof (cases "is_scalar w")
  case True
  have "dumps v = dumps w \<and> r = r'"
    using scalar_chars [OF assms(1,2)] scalar_chars [OF True assms(3)] assms(4,5,6)
    by (intro token_unique) simp_all
  with assms(1,2,3) True show ?thesis using scalar_inj by blast
next
  case False
  from scalar_head [OF assms(1,2)] obtain c t where v: "dumps v = c # t" "is_tok c"
    by (cases "dumps v") auto
  from nonscalar_head [OF False] obtain d u where w: "dumps w = d # u" "\<not> is_tok d"
    by (cases "dumps w") auto
  from assms(6) v w show ?thesis by simp
qed

end
